theory Spec2Isabelle
  imports Main "HOL-Library.Multiset"
begin

section \<open>Data model of the process scheduler (src/main.go)\<close>

text \<open>
  The Go program works on \<open>int64\<close> values. They are modelled as mathematical integers, and
  every addition and subtraction of the source is followed by the wrap-around of a 64-bit
  two's-complement machine (\<open>i64\<close>), so that the model agrees with the program also where a
  sum leaves the range.
\<close>

definition MaxInt64 :: int where
  "MaxInt64 = 9223372036854775807"

definition i64 :: "int \<Rightarrow> int" where
  "i64 x = (x + 9223372036854775808) mod 18446744073709551616 - 9223372036854775808"

definition add64 :: "int \<Rightarrow> int \<Rightarrow> int" where
  "add64 a b = i64 (a + b)"

definition sub64 :: "int \<Rightarrow> int \<Rightarrow> int" where
  "sub64 a b = i64 (a - b)"

record Process =
  ProcessID :: int
  ArrivalTime :: int
  BurstDuration :: int
  Priority :: int

record TimeSlice =
  PID :: int
  Start :: int
  Stop :: int

text \<open>
  A row of the schedule table. The source formats the seven columns with \<open>fmt.Sprint\<close>;
  the model keeps the numbers that are formatted.
\<close>

record ScheduleRow =
  rowID :: int
  rowPriority :: int
  rowBurst :: int
  rowArrival :: int
  rowWait :: int
  rowTurnaround :: int
  rowExit :: int

text \<open>
  What one policy hands to \<open>outputGantt\<close> and \<open>outputSchedule\<close>. A row that was never
  assigned (a \<open>nil\<close> slice in Go) is \<open>None\<close>. The three printed aggregates are the
  \<open>float64\<close> quotients \<open>outTotalWait / outCount\<close>, \<open>outTotalTurnaround / outCount\<close> and
  \<open>outCount / outLastCompletion\<close>; the model keeps their integer operands.
\<close>

record Output =
  outGantt :: "TimeSlice list"
  outSchedule :: "ScheduleRow option list"
  outCount :: nat
  outTotalWait :: int
  outTotalTurnaround :: int
  outLastCompletion :: int

datatype error = IndexOutOfRange

section \<open>First-come, first-serve\<close>

record fcfs_state =
  fcfs_serviceTime :: int
  fcfs_totalWait :: int
  fcfs_totalTurnaround :: int
  fcfs_lastCompletionTime :: int
  fcfs_waitingTime :: int
  fcfs_schedule :: "ScheduleRow option list"
  fcfs_gantt :: "TimeSlice list"

definition fcfs_init :: fcfs_state where
  "fcfs_init = \<lparr> fcfs_serviceTime = 0, fcfs_totalWait = 0, fcfs_totalTurnaround = 0,
     fcfs_lastCompletionTime = 0, fcfs_waitingTime = 0, fcfs_schedule = [], fcfs_gantt = [] \<rparr>"

text \<open>The body of the loop \<open>for i := range processes\<close> of \<open>FCFSSchedule\<close>, for process \<open>p\<close>.\<close>

definition fcfs_body :: "fcfs_state \<Rightarrow> Process \<Rightarrow> fcfs_state" where
  "fcfs_body s p =
     (let waitingTime = (if ArrivalTime p > 0 then sub64 (fcfs_serviceTime s) (ArrivalTime p)
                         else fcfs_waitingTime s);
          start = add64 waitingTime (ArrivalTime p);
          turnaround = add64 (BurstDuration p) waitingTime;
          completion = add64 (add64 (BurstDuration p) (ArrivalTime p)) waitingTime;
          row = \<lparr> rowID = ProcessID p, rowPriority = Priority p, rowBurst = BurstDuration p,
                  rowArrival = ArrivalTime p, rowWait = waitingTime, rowTurnaround = turnaround,
                  rowExit = completion \<rparr>;
          serviceTime = add64 (fcfs_serviceTime s) (BurstDuration p)
      in \<lparr> fcfs_serviceTime = serviceTime,
           fcfs_totalWait = fcfs_totalWait s + waitingTime,
           fcfs_totalTurnaround = fcfs_totalTurnaround s + turnaround,
           fcfs_lastCompletionTime = completion,
           fcfs_waitingTime = waitingTime,
           fcfs_schedule = fcfs_schedule s @ [Some row],
           fcfs_gantt = fcfs_gantt s @ [\<lparr> PID = ProcessID p, Start = start, Stop = serviceTime \<rparr>] \<rparr>)"

definition fcfs_loop :: "Process list \<Rightarrow> fcfs_state" where
  "fcfs_loop processes = foldl fcfs_body fcfs_init processes"

definition fcfs_output :: "Process list \<Rightarrow> fcfs_state \<Rightarrow> Output" where
  "fcfs_output processes s =
     \<lparr> outGantt = fcfs_gantt s, outSchedule = fcfs_schedule s, outCount = length processes,
       outTotalWait = fcfs_totalWait s, outTotalTurnaround = fcfs_totalTurnaround s,
       outLastCompletion = fcfs_lastCompletionTime s \<rparr>"

text \<open>
  Every scheduler returns the contents of the caller's slice after the call together with
  what it printed; \<open>FCFSSchedule\<close> never writes to the slice.
\<close>

definition FCFSSchedule :: "Process list \<Rightarrow> Process list \<times> Output" where
  "FCFSSchedule processes = (processes, fcfs_output processes (fcfs_loop processes))"

section \<open>Sorting the batch by arrival time\<close>

definition swap :: "'a list \<Rightarrow> nat \<Rightarrow> nat \<Rightarrow> 'a list" where
  "swap h i j = h[i := h ! j, j := h ! i]"

text \<open>
  \<open>sort.Slice\<close> belongs to Go's standard library. For a slice of at most 12 elements it is
  the insertion sort below (\<open>insertionSortLessFunc\<close> of Go 1.19 and later), with the
  comparison the two schedulers pass to it:
  \<open>processes[i].ArrivalTime < processes[j].ArrivalTime\<close>. On longer slices the library may
  order processes of equal arrival time differently; the properties of the two simulations
  (\<open>SJFRun\<close>, \<open>PriorityRun\<close>) are therefore proved for every batch that is sorted by
  arrival time, not only for the result of \<open>sortSlice\<close>.
\<close>

function sort_inner :: "Process list \<Rightarrow> nat \<Rightarrow> Process list" where
  "sort_inner data j =
     (if j > 0 \<and> ArrivalTime (data ! j) < ArrivalTime (data ! (j - 1))
      then sort_inner (swap data j (j - 1)) (j - 1) else data)"
  by pat_completeness auto
termination
  by (relation "measure snd") auto

declare sort_inner.simps [simp del]

definition sortSlice :: "Process list \<Rightarrow> Process list" where
  "sortSlice processes = fold (\<lambda>i data. sort_inner data i) [1..<length processes] processes"

section \<open>Shortest-job-first\<close>

record sjf_state =
  sjf_currentIndex :: nat
  sjf_currentTime :: int
  sjf_lastCompletionTime :: int
  sjf_schedule :: "ScheduleRow option list"
  sjf_gantt :: "TimeSlice list"
  sjf_remainingTime :: "int list"
  sjf_waitingTimes :: "int list"
  sjf_numOfCompletedProcesses :: nat

definition sjf_init :: "Process list \<Rightarrow> sjf_state" where
  "sjf_init processes =
     \<lparr> sjf_currentIndex = 0, sjf_currentTime = 0, sjf_lastCompletionTime = 0,
       sjf_schedule = replicate (length processes) None, sjf_gantt = [],
       sjf_remainingTime = map BurstDuration processes,
       sjf_waitingTimes = replicate (length processes) 0,
       sjf_numOfCompletedProcesses = 0 \<rparr>"

text \<open>
  One round of the inner loop \<open>for i, p := range processes\<close> that looks for the process to
  run; the pair is \<open>(minRemainTime, currentIndex)\<close>.
\<close>

definition sjf_select_step :: "Process list \<Rightarrow> int list \<Rightarrow> int \<Rightarrow> nat \<Rightarrow> int \<times> nat \<Rightarrow> int \<times> nat" where
  "sjf_select_step processes remainingTime currentTime i mc =
     (if ArrivalTime (processes ! i) \<le> currentTime \<and> remainingTime ! i < fst mc \<and> remainingTime ! i > 0
      then (remainingTime ! i, i) else mc)"

definition sjf_select :: "Process list \<Rightarrow> int list \<Rightarrow> int \<Rightarrow> nat \<Rightarrow> int \<times> nat" where
  "sjf_select processes remainingTime currentTime currentIndex =
     fold (sjf_select_step processes remainingTime currentTime) [0..<length processes]
       (MaxInt64, currentIndex)"

definition set_last_stop :: "TimeSlice list \<Rightarrow> int \<Rightarrow> TimeSlice list" where
  "set_last_stop gantt stop = gantt[length gantt - 1 := (gantt ! (length gantt - 1))\<lparr> Stop := stop \<rparr>]"

text \<open>What \<open>SJFSchedule\<close> does when the remaining time of \<open>currentIndex\<close> has reached zero.\<close>

definition sjf_complete :: "Process list \<Rightarrow> sjf_state \<Rightarrow> sjf_state" where
  "sjf_complete processes s =
     (let c = sjf_currentIndex s;
          p = processes ! c;
          stop = sjf_currentTime s;
          w0 = sub64 (sub64 stop (BurstDuration p)) (ArrivalTime p);
          w = (if w0 < 0 then 0 else w0);
          completion = add64 (add64 (BurstDuration p) (ArrivalTime p)) w;
          row = \<lparr> rowID = ProcessID p, rowPriority = Priority p, rowBurst = BurstDuration p,
                  rowArrival = ArrivalTime p, rowWait = w,
                  rowTurnaround = add64 w (BurstDuration p), rowExit = completion \<rparr>
      in s\<lparr> sjf_numOfCompletedProcesses := sjf_numOfCompletedProcesses s + 1,
            sjf_gantt := set_last_stop (sjf_gantt s) stop,
            sjf_waitingTimes := (sjf_waitingTimes s)[c := w],
            sjf_lastCompletionTime :=
              (if sjf_lastCompletionTime s < completion then completion else sjf_lastCompletionTime s),
            sjf_schedule := (sjf_schedule s)[c := Some row] \<rparr>)"

text \<open>The body of the loop \<open>for numOfCompletedProcesses < totalProcessCount\<close>.\<close>

definition sjf_iter :: "Process list \<Rightarrow> sjf_state \<Rightarrow> sjf_state" where
  "sjf_iter processes s =
     (let mc = sjf_select processes (sjf_remainingTime s) (sjf_currentTime s) (sjf_currentIndex s);
          c = snd mc
      in if fst mc = MaxInt64
         then s\<lparr> sjf_currentIndex := c,
                 sjf_currentTime := ArrivalTime (processes ! sjf_numOfCompletedProcesses s) \<rparr>
         else
           (let gantt = (if sjf_gantt s = [] \<or> PID (last (sjf_gantt s)) \<noteq> ProcessID (processes ! c)
                         then sjf_gantt s @ [\<lparr> PID = ProcessID (processes ! c),
                                                Start = sjf_currentTime s, Stop = 0 \<rparr>]
                         else sjf_gantt s);
                remainingTime = (sjf_remainingTime s)[c := sub64 (sjf_remainingTime s ! c) 1];
                s1 = s\<lparr> sjf_currentIndex := c, sjf_gantt := gantt,
                         sjf_remainingTime := remainingTime,
                         sjf_currentTime := add64 (sjf_currentTime s) 1 \<rparr>
            in if remainingTime ! c = 0 then sjf_complete processes s1 else s1))"

partial_function (option) sjf_loop :: "Process list \<Rightarrow> sjf_state \<Rightarrow> sjf_state option" where
  "sjf_loop processes s =
     (if sjf_numOfCompletedProcesses s < length processes
      then sjf_loop processes (sjf_iter processes s) else Some s)"

declare sjf_loop.simps [code]

definition totalWaitingTime :: "int list \<Rightarrow> int" where
  "totalWaitingTime waitingTimes = foldl add64 0 waitingTimes"

definition totalTurnAroundTime :: "Process list \<Rightarrow> int list \<Rightarrow> int" where
  "totalTurnAroundTime processes waitingTimes =
     foldl (\<lambda>result i. add64 result (add64 (BurstDuration (processes ! i)) (waitingTimes ! i)))
       0 [0..<length processes]"

definition sjf_output :: "Process list \<Rightarrow> sjf_state \<Rightarrow> Output" where
  "sjf_output processes s =
     \<lparr> outGantt = sjf_gantt s, outSchedule = sjf_schedule s, outCount = length processes,
       outTotalWait = totalWaitingTime (sjf_waitingTimes s),
       outTotalTurnaround = totalTurnAroundTime processes (sjf_waitingTimes s),
       outLastCompletion = sjf_lastCompletionTime s \<rparr>"

text \<open>\<open>SJFSchedule\<close> after its call of \<open>sort.Slice\<close>; \<open>None\<close> when the loop never ends.\<close>

definition SJFRun :: "Process list \<Rightarrow> Output option" where
  "SJFRun processes = map_option (sjf_output processes) (sjf_loop processes (sjf_init processes))"

definition SJFSchedule :: "Process list \<Rightarrow> (Process list \<times> Output) option" where
  "SJFSchedule processes =
     map_option (\<lambda>out. (sortSlice processes, out)) (SJFRun (sortSlice processes))"

section \<open>The priority heap\<close>

text \<open>
  \<open>IntHeap\<close> is a slice of processes; \<open>Less\<close> compares the \<open>Priority\<close> fields.
  \<open>heap.Push\<close> and \<open>heap.Pop\<close> belong to Go's standard library (\<open>container/heap\<close>):
  \<open>Push\<close> appends with \<open>IntHeap.Push\<close> and sifts the new element up, \<open>Pop\<close> swaps the
  first element with the last, sifts the new first element down in the shorter heap and
  removes the last element with \<open>IntHeap.Pop\<close>. On an empty heap \<open>heap.Pop\<close> calls
  \<open>Swap(0, -1)\<close>, which panics with an index out of range.
\<close>

definition Less :: "Process list \<Rightarrow> nat \<Rightarrow> nat \<Rightarrow> bool" where
  "Less h i j = (Priority (h ! i) < Priority (h ! j))"

function up :: "Process list \<Rightarrow> nat \<Rightarrow> Process list" where
  "up h j =
     (let i = (j - 1) div 2
      in if i = j \<or> \<not> Less h j i then h else up (swap h i j) i)"
  by pat_completeness auto
termination
  by (relation "measure snd") auto

declare up.simps [simp del]

function down :: "Process list \<Rightarrow> nat \<Rightarrow> nat \<Rightarrow> Process list" where
  "down h i n =
     (let j1 = 2 * i + 1
      in if j1 \<ge> n then h
         else (let j = (if j1 + 1 < n \<and> Less h (j1 + 1) j1 then j1 + 1 else j1)
               in if \<not> Less h j i then h else down (swap h i j) j n))"
  by pat_completeness auto
termination
  by (relation "measure (\<lambda>(h, i, n). n - i)") auto

declare down.simps [simp del]

definition heapPush :: "Process list \<Rightarrow> Process \<Rightarrow> Process list" where
  "heapPush h x = up (h @ [x]) (length h)"

definition heapPop :: "Process list \<Rightarrow> error + (Process \<times> Process list)" where
  "heapPop h =
     (if h = [] then Inl IndexOutOfRange
      else (let n = length h - 1;
                h1 = down (swap h 0 n) 0 n
            in Inr (h1 ! n, take n h1)))"

section \<open>Priority\<close>

record prio_state =
  prio_currentTime :: int
  prio_insertedProcessIdx :: nat
  prio_minHeap :: "Process list"
  prio_gantt :: "TimeSlice list"
  prio_turnAroundTimes :: "int list"
  prio_waitingTimes :: "int list"
  prio_lastCompletionTime :: int

text \<open>
  \<open>processesMapIndex\<close>: the index of each process id; of two processes with one id the
  later one stays. Reading a key that is absent gives Go's zero value.
\<close>

definition processesMapIndex :: "Process list \<Rightarrow> (int \<rightharpoonup> nat)" where
  "processesMapIndex processes =
     fold (\<lambda>i m. m(ProcessID (processes ! i) \<mapsto> i)) [0..<length processes] Map.empty"

definition mapIndex :: "(int \<rightharpoonup> nat) \<Rightarrow> int \<Rightarrow> nat" where
  "mapIndex m k = (case m k of None \<Rightarrow> 0 | Some i \<Rightarrow> i)"

definition prio_init :: "Process list \<Rightarrow> prio_state" where
  "prio_init processes =
     \<lparr> prio_currentTime = ArrivalTime (processes ! 0), prio_insertedProcessIdx = 0,
       prio_minHeap = [], prio_gantt = [],
       prio_turnAroundTimes = replicate (length processes) 0,
       prio_waitingTimes = replicate (length processes) 0,
       prio_lastCompletionTime = 0 \<rparr>"

text \<open>The inner loop that pushes the processes arriving at \<open>currentTime\<close>.\<close>

function prio_admit :: "Process list \<Rightarrow> prio_state \<Rightarrow> prio_state" where
  "prio_admit processes s =
     (if prio_insertedProcessIdx s < length processes
         \<and> ArrivalTime (processes ! prio_insertedProcessIdx s) = prio_currentTime s
      then prio_admit processes
             (s\<lparr> prio_minHeap := heapPush (prio_minHeap s) (processes ! prio_insertedProcessIdx s),
                 prio_insertedProcessIdx := prio_insertedProcessIdx s + 1 \<rparr>)
      else s)"
  by pat_completeness auto
termination
  by (relation "measure (\<lambda>(processes, s). length processes - prio_insertedProcessIdx s)") auto

declare prio_admit.simps [simp del]

text \<open>
  What the loop body does with the popped process: one unit of its burst is consumed, the
  timeline is extended, and the process is either finished or pushed back.
\<close>

definition prio_run :: "(int \<rightharpoonup> nat) \<Rightarrow> prio_state \<Rightarrow> Process \<Rightarrow> Process list \<Rightarrow> prio_state" where
  "prio_run m s popped h =
     (let minPriorityProcess = popped\<lparr> BurstDuration := sub64 (BurstDuration popped) 1 \<rparr>;
          gantt = (if prio_gantt s = [] \<or> PID (last (prio_gantt s)) \<noteq> ProcessID minPriorityProcess
                   then prio_gantt s @
                     [\<lparr> PID = ProcessID minPriorityProcess, Start = prio_currentTime s,
                        Stop = add64 (add64 (prio_currentTime s) (BurstDuration minPriorityProcess)) 1 \<rparr>]
                   else prio_gantt s);
          currentTime = add64 (prio_currentTime s) 1
      in if BurstDuration minPriorityProcess = 0
         then (let idx = mapIndex m (ProcessID minPriorityProcess);
                   completionTime = currentTime;
                   turnAround = sub64 completionTime (ArrivalTime minPriorityProcess);
                   waiting = sub64 (sub64 turnAround (BurstDuration minPriorityProcess))
                               (ArrivalTime minPriorityProcess)
               in s\<lparr> prio_minHeap := h, prio_gantt := gantt, prio_currentTime := currentTime,
                     prio_turnAroundTimes := (prio_turnAroundTimes s)[idx := turnAround],
                     prio_waitingTimes := (prio_waitingTimes s)[idx := waiting],
                     prio_lastCompletionTime :=
                       (if prio_lastCompletionTime s < completionTime then completionTime
                        else prio_lastCompletionTime s) \<rparr>)
         else s\<lparr> prio_minHeap := heapPush h minPriorityProcess, prio_gantt := gantt,
                 prio_currentTime := currentTime,
                 prio_lastCompletionTime :=
                   (if prio_lastCompletionTime s < currentTime then currentTime
                    else prio_lastCompletionTime s) \<rparr>)"

text \<open>
  One pass through the body of the endless \<open>for\<close> loop: \<open>Inl\<close> is a panic, \<open>Inr (True, s)\<close>
  the \<open>break\<close>, \<open>Inr (False, s)\<close> the state at the end of the body. When the heap is empty
  and processes are left, the source sets \<open>currentTime\<close> and goes on to \<open>heap.Pop\<close> in the
  same pass.
\<close>

definition prio_iter :: "Process list \<Rightarrow> (int \<rightharpoonup> nat) \<Rightarrow> prio_state \<Rightarrow> error + (bool \<times> prio_state)" where
  "prio_iter processes m s0 =
     (let s = prio_admit processes s0
      in if prio_minHeap s = [] \<and> \<not> prio_insertedProcessIdx s < length processes
         then Inr (True, s)
         else (let s1 = (if prio_minHeap s = []
                         then s\<lparr> prio_currentTime := ArrivalTime (processes ! prio_insertedProcessIdx s) \<rparr>
                         else s)
               in case heapPop (prio_minHeap s1) of
                    Inl e \<Rightarrow> Inl e
                  | Inr (popped, h) \<Rightarrow> Inr (False, prio_run m s1 popped h)))"

partial_function (option) prio_loop ::
    "Process list \<Rightarrow> (int \<rightharpoonup> nat) \<Rightarrow> prio_state \<Rightarrow> (error + prio_state) option" where
  "prio_loop processes m s =
     (case prio_iter processes m s of
        Inl e \<Rightarrow> Some (Inl e)
      | Inr (stop, s') \<Rightarrow> if stop then Some (Inr s') else prio_loop processes m s')"

declare prio_loop.simps [code]

text \<open>The loop that fills the schedule table after the simulation.\<close>

definition prio_row :: "Process list \<Rightarrow> prio_state \<Rightarrow> nat \<Rightarrow> ScheduleRow" where
  "prio_row processes s i =
     (let p = processes ! i
      in \<lparr> rowID = ProcessID p, rowPriority = Priority p, rowBurst = BurstDuration p,
           rowArrival = ArrivalTime p, rowWait = prio_waitingTimes s ! i,
           rowTurnaround = prio_turnAroundTimes s ! i,
           rowExit = add64 (add64 (ArrivalTime p) (BurstDuration p)) (prio_waitingTimes s ! i) \<rparr>)"

definition prio_last :: "Process list \<Rightarrow> prio_state \<Rightarrow> int" where
  "prio_last processes s =
     foldl (\<lambda>lastCompletionTime i.
              if lastCompletionTime < rowExit (prio_row processes s i)
              then rowExit (prio_row processes s i) else lastCompletionTime)
       (prio_lastCompletionTime s) [0..<length processes]"

definition total :: "int list \<Rightarrow> int" where
  "total arr = foldl add64 0 arr"

definition prio_output :: "Process list \<Rightarrow> prio_state \<Rightarrow> Output" where
  "prio_output processes s =
     \<lparr> outGantt = prio_gantt s,
       outSchedule = map (\<lambda>i. Some (prio_row processes s i)) [0..<length processes],
       outCount = length processes,
       outTotalWait = total (prio_waitingTimes s),
       outTotalTurnaround = total (prio_turnAroundTimes s),
       outLastCompletion = prio_last processes s \<rparr>"

text \<open>
  \<open>SJFPrioritySchedule\<close> after its call of \<open>sort.Slice\<close>. Reading \<open>processes[0]\<close> of an empty
  batch panics. \<open>None\<close> when the loop never ends.
\<close>

definition PriorityRun :: "Process list \<Rightarrow> (error + Output) option" where
  "PriorityRun processes =
     (if processes = [] then Some (Inl IndexOutOfRange)
      else map_option (map_sum id (prio_output processes))
             (prio_loop processes (processesMapIndex processes) (prio_init processes)))"

definition SJFPrioritySchedule :: "Process list \<Rightarrow> (Process list \<times> (error + Output)) option" where
  "SJFPrioritySchedule processes =
     map_option (\<lambda>r. (sortSlice processes, r)) (PriorityRun (sortSlice processes))"

section \<open>Round-robin\<close>

text \<open>\<open>RRSchedule\<close> prints its title and nothing else: no timeline and no table.\<close>

definition RRSchedule :: "Process list \<Rightarrow> Process list \<times> Output option" where
  "RRSchedule processes = (processes, None)"

section \<open>Notions used to state the properties\<close>

text \<open>
  The states at the head of the loop of \<open>SJFSchedule\<close>: the initial one, and the state
  after each pass through the body that the loop condition lets in.
\<close>

inductive sjf_reachable :: "Process list \<Rightarrow> sjf_state \<Rightarrow> bool" for processes where
  init: "sjf_reachable processes (sjf_init processes)"
| step: "sjf_reachable processes s \<Longrightarrow> sjf_numOfCompletedProcesses s < length processes
         \<Longrightarrow> sjf_reachable processes (sjf_iter processes s)"

text \<open>
  A process is eligible, in the words of the specification, when it has arrived and has
  burst time left. The search loop of the source can pick a process only if, in addition, its
  remaining time is below the initial value \<open>MaxInt64\<close> of \<open>minRemainTime\<close>.
\<close>

definition sjf_eligible :: "Process list \<Rightarrow> sjf_state \<Rightarrow> nat \<Rightarrow> bool" where
  "sjf_eligible processes s i \<longleftrightarrow>
     i < length processes \<and> ArrivalTime (processes ! i) \<le> sjf_currentTime s
     \<and> sjf_remainingTime s ! i > 0"

definition sjf_candidate :: "Process list \<Rightarrow> int list \<Rightarrow> int \<Rightarrow> nat \<Rightarrow> bool" where
  "sjf_candidate processes remainingTime currentTime i \<longleftrightarrow>
     i < length processes \<and> ArrivalTime (processes ! i) \<le> currentTime
     \<and> remainingTime ! i > 0 \<and> remainingTime ! i < MaxInt64"

text \<open>
  The loop of SJF and the loop of Priority with a bound on the number of passes through
  the body: \<open>None\<close> when the bound is used up before the loop ends.
\<close>

fun sjf_loop_n :: "nat \<Rightarrow> Process list \<Rightarrow> sjf_state \<Rightarrow> sjf_state option" where
  "sjf_loop_n 0 processes s =
     (if sjf_numOfCompletedProcesses s < length processes then None else Some s)"
| "sjf_loop_n (Suc k) processes s =
     (if sjf_numOfCompletedProcesses s < length processes
      then sjf_loop_n k processes (sjf_iter processes s) else Some s)"

fun prio_loop_n :: "nat \<Rightarrow> Process list \<Rightarrow> (int \<rightharpoonup> nat) \<Rightarrow> prio_state \<Rightarrow> (error + prio_state) option" where
  "prio_loop_n 0 processes m s = None"
| "prio_loop_n (Suc k) processes m s =
     (case prio_iter processes m s of
        Inl e \<Rightarrow> Some (Inl e)
      | Inr (stop, s') \<Rightarrow> if stop then Some (Inr s') else prio_loop_n k processes m s')"

text \<open>
  What every pass of the SJF loop keeps: remaining times stay between 0 and the burst, and
  \<open>numOfCompletedProcesses\<close> counts the processes whose remaining time is 0.
\<close>

definition sjf_inv :: "Process list \<Rightarrow> sjf_state \<Rightarrow> bool" where
  "sjf_inv processes s \<longleftrightarrow>
     length (sjf_remainingTime s) = length processes
     \<and> (\<forall>i<length processes. 0 \<le> sjf_remainingTime s ! i
            \<and> sjf_remainingTime s ! i \<le> BurstDuration (processes ! i))
     \<and> sjf_numOfCompletedProcesses s = card {i. i < length processes \<and> sjf_remainingTime s ! i = 0}"

text \<open>The conditions on a batch: bursts below the sentinel, and a clock that cannot overflow.\<close>

definition burst_ok :: "Process list \<Rightarrow> bool" where
  "burst_ok processes \<longleftrightarrow> (\<forall>p\<in>set processes. 0 < BurstDuration p \<and> BurstDuration p < MaxInt64)"

text \<open>
  A bound on the passes the SJF loop still needs: two for every unit of remaining time,
  one less when the next pass finds a process to run.
\<close>

definition sjf_fuel :: "Process list \<Rightarrow> sjf_state \<Rightarrow> nat" where
  "sjf_fuel processes s =
     2 * nat (sum_list (sjf_remainingTime s))
     - (if \<exists>j. sjf_candidate processes (sjf_remainingTime s) (sjf_currentTime s) j then 1 else 0)"

definition clock_ok :: "Process list \<Rightarrow> bool" where
  "clock_ok processes \<longleftrightarrow>
     (\<forall>p\<in>set processes. 0 \<le> ArrivalTime p \<and> 0 < BurstDuration p
        \<and> ArrivalTime p + sum_list (map BurstDuration processes) < MaxInt64)"

text \<open>
  The clock of SJF stays in range, and a process that has been run has arrived.
\<close>

definition sjf_clock_inv :: "Process list \<Rightarrow> sjf_state \<Rightarrow> bool" where
  "sjf_clock_inv processes s \<longleftrightarrow>
     0 \<le> sjf_currentTime s
     \<and> sjf_currentTime s + sum_list (sjf_remainingTime s) < MaxInt64
     \<and> (\<forall>i<length processes. sjf_remainingTime s ! i \<noteq> BurstDuration (processes ! i)
            \<longrightarrow> ArrivalTime (processes ! i) \<le> sjf_currentTime s)"

text \<open>
  The burst still to be consumed by the Priority loop: that of the processes in the heap
  and of the processes not yet pushed. Every process in the heap has burst left.
\<close>

definition prio_work :: "Process list \<Rightarrow> prio_state \<Rightarrow> int" where
  "prio_work processes s =
     sum_list (map BurstDuration (prio_minHeap s))
     + sum_list (map BurstDuration (drop (prio_insertedProcessIdx s) processes))"

definition prio_inv :: "prio_state \<Rightarrow> bool" where
  "prio_inv s \<longleftrightarrow> (\<forall>p\<in>set (prio_minHeap s). 0 < BurstDuration p \<and> BurstDuration p < MaxInt64)"

text \<open>
  Well-formed timelines at clock \<open>t\<close>: for SJF (\<open>slices_ok\<close>), for Priority
  (\<open>starts_ok\<close>) and for FCFS (\<open>fcfs_ok\<close>).
\<close>

definition slices_ok :: "int \<Rightarrow> TimeSlice list \<Rightarrow> bool" where
  "slices_ok t g \<longleftrightarrow>
     sorted_wrt (<) (map Start g)
     \<and> distinct_adj (map PID g)
     \<and> (\<forall>x\<in>set g. Start x < t \<and> (Stop x = 0 \<or> (Start x < Stop x \<and> Stop x \<le> t)))
     \<and> successively (\<lambda>x y. Stop x = 0 \<or> Stop x \<le> Start y) g"

definition starts_ok :: "int \<Rightarrow> TimeSlice list \<Rightarrow> bool" where
  "starts_ok t g \<longleftrightarrow>
     sorted_wrt (<) (map Start g)
     \<and> distinct_adj (map PID g)
     \<and> (\<forall>x\<in>set g. Start x < t \<and> Start x < Stop x)"

definition prio_clock_inv :: "Process list \<Rightarrow> prio_state \<Rightarrow> bool" where
  "prio_clock_inv processes s \<longleftrightarrow>
     prio_inv s \<and> 0 \<le> prio_currentTime s
     \<and> prio_currentTime s + prio_work processes s < MaxInt64
     \<and> starts_ok (prio_currentTime s) (prio_gantt s)"

definition fcfs_ok :: "fcfs_state \<Rightarrow> bool" where
  "fcfs_ok s \<longleftrightarrow>
     0 \<le> fcfs_serviceTime s
     \<and> (\<forall>x\<in>set (fcfs_gantt s). Start x < Stop x)
     \<and> successively (\<lambda>x y. Stop x = Start y) (fcfs_gantt s)
     \<and> (fcfs_gantt s \<noteq> [] \<longrightarrow> Stop (last (fcfs_gantt s)) = fcfs_serviceTime s)"

text \<open>The two equations between the columns of a row, in 64-bit arithmetic.\<close>

definition row_consistent :: "ScheduleRow \<Rightarrow> bool" where
  "row_consistent r \<longleftrightarrow>
     rowTurnaround r = add64 (rowBurst r) (rowWait r)
     \<and> rowExit r = add64 (rowArrival r) (rowTurnaround r)"

section \<open>The sort gives a sorted permutation of the batch\<close>

lemma length_swap [simp]: "length (swap h i j) = length h"
  by (simp add: swap_def)

lemma mset_swap_eq [simp]: "i < length h \<Longrightarrow> j < length h \<Longrightarrow> mset (swap h i j) = mset h"
  unfolding swap_def by (rule mset_swap)

lemma swap_nth_fst: "i < length h \<Longrightarrow> j < length h \<Longrightarrow> swap h i j ! i = h ! j"
  by (cases "i = j") (simp_all add: swap_def)

lemma swap_nth_snd: "i < length h \<Longrightarrow> j < length h \<Longrightarrow> swap h i j ! j = h ! i"
  by (simp add: swap_def)

lemma swap_nth_other: "k \<noteq> i \<Longrightarrow> k \<noteq> j \<Longrightarrow> swap h i j ! k = h ! k"
  by (simp add: swap_def)

lemma length_sort_inner [simp]: "length (sort_inner data j) = length data"
  by (induction data j rule: sort_inner.induct) (subst sort_inner.simps, simp)

lemma mset_sort_inner: "j < length data \<Longrightarrow> mset (sort_inner data j) = mset data"
proof (induction data j rule: sort_inner.induct)
  case (1 data j)
  show ?case
  proof (cases "j > 0 \<and> ArrivalTime (data ! j) < ArrivalTime (data ! (j - 1))")
    case True
    with 1 have "mset (sort_inner (swap data j (j - 1)) (j - 1)) = mset (swap data j (j - 1))"
      by simp
    with True 1 show ?thesis by (subst sort_inner.simps) simp
  next
    case False
    then show ?thesis by (subst sort_inner.simps) auto
  qed
qed

lemma sort_inner_sorted:
  assumes "j \<le> i" "i < length data"
    and "\<forall>a b. a < b \<and> b \<le> i \<and> a \<noteq> j \<and> b \<noteq> j \<longrightarrow> ArrivalTime (data ! a) \<le> ArrivalTime (data ! b)"
    and "\<forall>b. j < b \<and> b \<le> i \<longrightarrow> ArrivalTime (data ! j) < ArrivalTime (data ! b)"
  shows "\<forall>a b. a < b \<and> b \<le> i \<longrightarrow>
           ArrivalTime (sort_inner data j ! a) \<le> ArrivalTime (sort_inner data j ! b)"
  using assms
proof (induction data j rule: sort_inner.induct)
  case (1 data j)
  have old: "\<And>x y. x < y \<Longrightarrow> y \<le> i \<Longrightarrow> x \<noteq> j \<Longrightarrow> y \<noteq> j \<Longrightarrow>
               ArrivalTime (data ! x) \<le> ArrivalTime (data ! y)"
    using 1(4) by blast
  have old2: "\<And>y. j < y \<Longrightarrow> y \<le> i \<Longrightarrow> ArrivalTime (data ! j) < ArrivalTime (data ! y)"
    using 1(5) by blast
  show ?case
  proof (cases "j > 0 \<and> ArrivalTime (data ! j) < ArrivalTime (data ! (j - 1))")
    case True
    define m where "m = j - 1"
    define d where "d = swap data j m"
    have j0: "j > 0" and lt: "ArrivalTime (data ! j) < ArrivalTime (data ! m)"
      using True by (auto simp: m_def)
    have mj: "m < j" "j = Suc m" using j0 by (auto simp: m_def)
    have lj: "j < length data" and lm: "m < length data" using 1(2,3) mj by auto
    have dj: "d ! j = data ! m" unfolding d_def by (rule swap_nth_fst[OF lj lm])
    have dm: "d ! m = data ! j" unfolding d_def by (rule swap_nth_snd[OF lj lm])
    have dk: "\<And>k. k \<noteq> j \<Longrightarrow> k \<noteq> m \<Longrightarrow> d ! k = data ! k"
      unfolding d_def by (rule swap_nth_other)
    have a1: "\<forall>a b. a < b \<and> b \<le> i \<and> a \<noteq> m \<and> b \<noteq> m \<longrightarrow> ArrivalTime (d ! a) \<le> ArrivalTime (d ! b)"
    proof (intro allI impI)
      fix a b assume h: "a < b \<and> b \<le> i \<and> a \<noteq> m \<and> b \<noteq> m"
      consider (aj) "a = j" | (bj) "b = j" "a \<noteq> j" | (none) "a \<noteq> j" "b \<noteq> j" by blast
      then show "ArrivalTime (d ! a) \<le> ArrivalTime (d ! b)"
      proof cases
        case aj
        then have b: "m < b" "b \<noteq> j" "b \<noteq> m" using h mj by auto
        have "ArrivalTime (data ! m) \<le> ArrivalTime (data ! b)"
          using old[of m b] h b mj by auto
        then show ?thesis using aj dj dk[of b] b by simp
      next
        case bj
        then have a: "a < m" "a \<noteq> j" "a \<noteq> m" using h mj by auto
        have "ArrivalTime (data ! a) \<le> ArrivalTime (data ! m)"
          using old[of a m] h bj mj a by auto
        then show ?thesis using bj dj dk[of a] a by simp
      next
        case none
        then show ?thesis using h old[of a b] dk[of a] dk[of b] by simp
      qed
    qed
    have a2: "\<forall>b. m < b \<and> b \<le> i \<longrightarrow> ArrivalTime (d ! m) < ArrivalTime (d ! b)"
    proof (intro allI impI)
      fix b assume h: "m < b \<and> b \<le> i"
      show "ArrivalTime (d ! m) < ArrivalTime (d ! b)"
      proof (cases "b = j")
        case True
        then show ?thesis using lt dm dj by simp
      next
        case False
        then have jb: "j < b" using h mj by auto
        then have "ArrivalTime (data ! j) < ArrivalTime (data ! b)" using old2[of b] h by auto
        then show ?thesis using False jb dm dk[of b] mj by simp
      qed
    qed
    have mi: "m \<le> i" using 1(2) mj by simp
    have li: "i < length d" using 1(3) by (simp add: d_def)
    have "\<forall>a b. a < b \<and> b \<le> i \<longrightarrow>
           ArrivalTime (sort_inner d m ! a) \<le> ArrivalTime (sort_inner d m ! b)"
      using 1(1)[OF True, folded m_def, folded d_def, OF mi li a1 a2] .
    moreover have "sort_inner data j = sort_inner d m"
      using True by (subst sort_inner.simps) (simp add: d_def m_def)
    ultimately show ?thesis by simp
  next
    case False
    have "\<forall>a b. a < b \<and> b \<le> i \<longrightarrow> ArrivalTime (data ! a) \<le> ArrivalTime (data ! b)"
    proof (intro allI impI)
      fix a b assume h: "a < b \<and> b \<le> i"
      show "ArrivalTime (data ! a) \<le> ArrivalTime (data ! b)"
      proof (cases "a = j")
        case True then show ?thesis using h old2[of b] by auto
      next
        case aj: False
        show ?thesis
        proof (cases "b = j")
          case bj: True
          then have j0: "j > 0" using h by auto
          with False have le: "ArrivalTime (data ! (j - 1)) \<le> ArrivalTime (data ! j)" by auto
          show ?thesis
          proof (cases "a = j - 1")
            case True with le bj show ?thesis by simp
          next
            case False
            then have "a < j - 1" using h bj by auto
            then have "ArrivalTime (data ! a) \<le> ArrivalTime (data ! (j - 1))"
              using old[of a "j - 1"] h bj j0 by auto
            with le bj show ?thesis by simp
          qed
        next
          case False with aj h old[of a b] show ?thesis by auto
        qed
      qed
    qed
    moreover have "sort_inner data j = data"
      using False by (subst sort_inner.simps) auto
    ultimately show ?thesis by simp
  qed
qed


lemma sortSlice_prefix:
  "k \<le> length processes \<Longrightarrow>
   length (fold (\<lambda>i data. sort_inner data i) [1..<k] processes) = length processes \<and>
   mset (fold (\<lambda>i data. sort_inner data i) [1..<k] processes) = mset processes \<and>
   (\<forall>a b. a < b \<and> b < k \<longrightarrow>
      ArrivalTime (fold (\<lambda>i data. sort_inner data i) [1..<k] processes ! a)
      \<le> ArrivalTime (fold (\<lambda>i data. sort_inner data i) [1..<k] processes ! b))"
proof (induction k)
  case 0
  then show ?case by simp
next
  case (Suc k)
  define d where "d = fold (\<lambda>i data. sort_inner data i) [1..<k] processes"
  have ih: "length d = length processes" "mset d = mset processes"
    "\<forall>a b. a < b \<and> b < k \<longrightarrow> ArrivalTime (d ! a) \<le> ArrivalTime (d ! b)"
    using Suc by (auto simp: d_def)
  show ?case
  proof (cases "k = 0")
    case True
    then show ?thesis by simp
  next
    case False
    then have upt: "[1..<Suc k] = [1..<k] @ [k]" by simp
    have eq: "fold (\<lambda>i data. sort_inner data i) [1..<Suc k] processes = sort_inner d k"
      unfolding upt d_def by simp
    have kl: "k < length d" using Suc.prems ih(1) by simp
    have p1: "\<forall>a b. a < b \<and> b \<le> k \<and> a \<noteq> k \<and> b \<noteq> k \<longrightarrow> ArrivalTime (d ! a) \<le> ArrivalTime (d ! b)"
      using ih(3) by auto
    have p2: "\<forall>b. k < b \<and> b \<le> k \<longrightarrow> ArrivalTime (d ! k) < ArrivalTime (d ! b)"
      by auto
    have s: "\<forall>a b. a < b \<and> b \<le> k \<longrightarrow>
           ArrivalTime (sort_inner d k ! a) \<le> ArrivalTime (sort_inner d k ! b)"
      by (rule sort_inner_sorted[OF order_refl kl p1 p2])
    have s': "\<forall>a b. a < b \<and> b < Suc k \<longrightarrow>
           ArrivalTime (sort_inner d k ! a) \<le> ArrivalTime (sort_inner d k ! b)"
      using s by (simp add: less_Suc_eq_le)
    show ?thesis
      unfolding eq using s' ih(1,2) mset_sort_inner[OF kl] by simp
  qed
qed

lemma length_sortSlice [simp]: "length (sortSlice processes) = length processes"
  using sortSlice_prefix[of "length processes" processes] by (simp add: sortSlice_def)

lemma mset_sortSlice [simp]: "mset (sortSlice processes) = mset processes"
  using sortSlice_prefix[of "length processes" processes] by (simp add: sortSlice_def)

lemma set_sortSlice [simp]: "set (sortSlice processes) = set processes"
  using mset_sortSlice[of processes] by (metis set_mset_mset)

lemma sorted_sortSlice: "sorted (map ArrivalTime (sortSlice processes))"
proof -
  have "\<forall>a b. a < b \<and> b < length processes \<longrightarrow>
      ArrivalTime (sortSlice processes ! a) \<le> ArrivalTime (sortSlice processes ! b)"
    using sortSlice_prefix[of "length processes" processes] by (simp add: sortSlice_def)
  then show ?thesis
    by (simp add: sorted_iff_nth_mono_less)
qed


section \<open>The loop of SJFSchedule: search, invariant and termination\<close>

lemma i64_id: "- 9223372036854775808 \<le> x \<Longrightarrow> x < 9223372036854775808 \<Longrightarrow> i64 x = x"
  by (simp add: i64_def)

lemma sjf_select_fold:
  "k \<le> length ps \<Longrightarrow>
   fold (sjf_select_step ps rem t) [0..<k] (MaxInt64, c0) = (m, c) \<Longrightarrow>
   (m = MaxInt64 \<and> c = c0 \<and> (\<forall>j<k. \<not> sjf_candidate ps rem t j))
   \<or> (c < k \<and> sjf_candidate ps rem t c \<and> m = rem ! c
      \<and> (\<forall>j<k. sjf_candidate ps rem t j \<longrightarrow> rem ! c \<le> rem ! j)
      \<and> (\<forall>j<c. sjf_candidate ps rem t j \<longrightarrow> rem ! c < rem ! j))"
proof (induction k arbitrary: m c)
  case 0
  then show ?case by simp
next
  case (Suc k)
  obtain m0 c1 where f: "fold (sjf_select_step ps rem t) [0..<k] (MaxInt64, c0) = (m0, c1)"
    by (cases "fold (sjf_select_step ps rem t) [0..<k] (MaxInt64, c0)") auto
  have kl: "k < length ps" using Suc.prems(1) by simp
  have ih: "(m0 = MaxInt64 \<and> c1 = c0 \<and> (\<forall>j<k. \<not> sjf_candidate ps rem t j))
   \<or> (c1 < k \<and> sjf_candidate ps rem t c1 \<and> m0 = rem ! c1
      \<and> (\<forall>j<k. sjf_candidate ps rem t j \<longrightarrow> rem ! c1 \<le> rem ! j)
      \<and> (\<forall>j<c1. sjf_candidate ps rem t j \<longrightarrow> rem ! c1 < rem ! j))"
    using Suc.IH[OF _ f] Suc.prems(1) by simp
  have st: "sjf_select_step ps rem t k (m0, c1) = (m, c)"
    using Suc.prems(2) f by simp
  show ?case
  proof (cases "ArrivalTime (ps ! k) \<le> t \<and> rem ! k < m0 \<and> rem ! k > 0")
    case True
    then have mc: "m = rem ! k" "c = k" using st by (auto simp: sjf_select_step_def)
    from ih have m0le: "m0 \<le> MaxInt64" by (auto simp: sjf_candidate_def)
    have ck: "sjf_candidate ps rem t k" using True kl m0le by (auto simp: sjf_candidate_def)
    have lt: "\<forall>j<k. sjf_candidate ps rem t j \<longrightarrow> rem ! k < rem ! j"
      using ih True by auto
    show ?thesis using mc ck lt by (auto simp: less_Suc_eq)
  next
    case False
    then have mc: "m = m0" "c = c1" using st by (auto simp: sjf_select_step_def)
    from ih show ?thesis
    proof
      assume a: "m0 = MaxInt64 \<and> c1 = c0 \<and> (\<forall>j<k. \<not> sjf_candidate ps rem t j)"
      then have "\<not> sjf_candidate ps rem t k" using False by (auto simp: sjf_candidate_def)
      with a mc show ?thesis by (auto simp: less_Suc_eq)
    next
      assume a: "c1 < k \<and> sjf_candidate ps rem t c1 \<and> m0 = rem ! c1
      \<and> (\<forall>j<k. sjf_candidate ps rem t j \<longrightarrow> rem ! c1 \<le> rem ! j)
      \<and> (\<forall>j<c1. sjf_candidate ps rem t j \<longrightarrow> rem ! c1 < rem ! j)"
      then have "sjf_candidate ps rem t k \<longrightarrow> rem ! c1 \<le> rem ! k"
        using False by (auto simp: sjf_candidate_def)
      with a mc show ?thesis by (auto simp: less_Suc_eq)
    qed
  qed
qed

lemma sjf_select_cases:
  assumes "sjf_select ps rem t c0 = (m, c)"
  shows "(m = MaxInt64 \<and> c = c0 \<and> (\<forall>j. \<not> sjf_candidate ps rem t j))
   \<or> (m \<noteq> MaxInt64 \<and> sjf_candidate ps rem t c \<and> m = rem ! c
      \<and> (\<forall>j. sjf_candidate ps rem t j \<longrightarrow> rem ! c \<le> rem ! j)
      \<and> (\<forall>j<c. sjf_candidate ps rem t j \<longrightarrow> rem ! c < rem ! j))"
proof -
  have out: "\<And>j. sjf_candidate ps rem t j \<Longrightarrow> j < length ps" by (simp add: sjf_candidate_def)
  from sjf_select_fold[OF order_refl assms[unfolded sjf_select_def]]
  show ?thesis
  proof
    assume "m = MaxInt64 \<and> c = c0 \<and> (\<forall>j<length ps. \<not> sjf_candidate ps rem t j)"
    then show ?thesis using out by blast
  next
    assume a: "c < length ps \<and> sjf_candidate ps rem t c \<and> m = rem ! c \<and>
     (\<forall>j<length ps. sjf_candidate ps rem t j \<longrightarrow> rem ! c \<le> rem ! j) \<and>
     (\<forall>j<c. sjf_candidate ps rem t j \<longrightarrow> rem ! c < rem ! j)"
    then have "m \<noteq> MaxInt64" by (auto simp: sjf_candidate_def)
    with a show ?thesis using out by blast
  qed
qed

lemma sjf_iter_jump:
  assumes "sjf_select ps (sjf_remainingTime s) (sjf_currentTime s) (sjf_currentIndex s) = (m, c)"
    and "m = MaxInt64"
  shows "sjf_iter ps s = s\<lparr> sjf_currentIndex := c,
            sjf_currentTime := ArrivalTime (ps ! sjf_numOfCompletedProcesses s) \<rparr>"
  using assms by (simp add: sjf_iter_def)

lemma sjf_iter_tick:
  assumes "sjf_select ps (sjf_remainingTime s) (sjf_currentTime s) (sjf_currentIndex s) = (m, c)"
    and "m \<noteq> MaxInt64"
  shows "sjf_remainingTime (sjf_iter ps s) = (sjf_remainingTime s)[c := sub64 (sjf_remainingTime s ! c) 1]"
    and "sjf_currentTime (sjf_iter ps s) = add64 (sjf_currentTime s) 1"
    and "sjf_currentIndex (sjf_iter ps s) = c"
    and "sjf_numOfCompletedProcesses (sjf_iter ps s) =
           (if (sjf_remainingTime s)[c := sub64 (sjf_remainingTime s ! c) 1] ! c = 0
            then sjf_numOfCompletedProcesses s + 1 else sjf_numOfCompletedProcesses s)"
  using assms by (simp_all add: sjf_iter_def sjf_complete_def Let_def)

lemma sjf_inv_init: "burst_ok ps \<Longrightarrow> sjf_inv ps (sjf_init ps)"
proof -
  assume b: "burst_ok ps"
  then have "\<And>i. i < length ps \<Longrightarrow> 0 < BurstDuration (ps ! i)"
    by (simp add: burst_ok_def)
  then have "{i. i < length ps \<and> map BurstDuration ps ! i = 0} = {}"
    by fastforce
  then show ?thesis
    using b by (simp add: sjf_inv_def sjf_init_def burst_ok_def order_less_imp_le)
qed

lemma sjf_inv_step:
  assumes b: "burst_ok ps" and inv: "sjf_inv ps s"
  shows "sjf_inv ps (sjf_iter ps s)"
proof -
  obtain m c where sel: "sjf_select ps (sjf_remainingTime s) (sjf_currentTime s) (sjf_currentIndex s) = (m, c)"
    by (cases "sjf_select ps (sjf_remainingTime s) (sjf_currentTime s) (sjf_currentIndex s)") auto
  show ?thesis
  proof (cases "m = MaxInt64")
    case True
    show ?thesis using inv unfolding sjf_iter_jump[OF sel True] by (simp add: sjf_inv_def)
  next
    case False
    let ?rem = "sjf_remainingTime s"
    from sjf_select_cases[OF sel] False
    have cand: "sjf_candidate ps ?rem (sjf_currentTime s) c" by blast
    then have cl: "c < length ps" and pos: "0 < ?rem ! c" and lt: "?rem ! c < MaxInt64"
      by (auto simp: sjf_candidate_def)
    have dec: "sub64 (?rem ! c) 1 = ?rem ! c - 1"
      using pos lt by (simp add: sub64_def i64_id MaxInt64_def)
    note tick = sjf_iter_tick[OF sel False, unfolded dec]
    have len: "length ?rem = length ps" using inv by (simp add: sjf_inv_def)
    have rng: "\<forall>i<length ps. 0 \<le> ?rem[c := ?rem ! c - 1] ! i
                 \<and> ?rem[c := ?rem ! c - 1] ! i \<le> BurstDuration (ps ! i)"
    proof (intro allI impI)
      fix i assume "i < length ps"
      then show "0 \<le> ?rem[c := ?rem ! c - 1] ! i \<and> ?rem[c := ?rem ! c - 1] ! i \<le> BurstDuration (ps ! i)"
        using inv pos len cl by (cases "i = c") (auto simp: sjf_inv_def)
    qed
    have cc: "?rem[c := ?rem ! c - 1] ! c = ?rem ! c - 1" using len cl by simp
    have cnt: "(if ?rem ! c - 1 = 0 then sjf_numOfCompletedProcesses s + 1
                else sjf_numOfCompletedProcesses s)
               = card {i. i < length ps \<and> ?rem[c := ?rem ! c - 1] ! i = 0}"
    proof (cases "?rem ! c - 1 = 0")
      case True
      have "{i. i < length ps \<and> ?rem[c := ?rem ! c - 1] ! i = 0}
            = insert c {i. i < length ps \<and> ?rem ! i = 0}"
        using True cl len pos by (auto simp: nth_list_update)
      moreover have "c \<notin> {i. i < length ps \<and> ?rem ! i = 0}" using pos by simp
      moreover have "finite {i. i < length ps \<and> ?rem ! i = 0}" by simp
      ultimately show ?thesis using inv True by (simp add: sjf_inv_def)
    next
      case False
      have "{i. i < length ps \<and> ?rem[c := ?rem ! c - 1] ! i = 0}
            = {i. i < length ps \<and> ?rem ! i = 0}"
        using False cl len pos by (auto simp: nth_list_update)
      then show ?thesis using inv False by (simp add: sjf_inv_def)
    qed
    show ?thesis
      unfolding sjf_inv_def tick cc using len rng cnt by simp
  qed
qed

lemma sum_list_update_int:
  fixes xs :: "int list"
  shows "k < length xs \<Longrightarrow> sum_list (xs[k := x]) = sum_list xs + x - xs ! k"
proof (induction xs arbitrary: k)
  case Nil
  then show ?case by simp
next
  case (Cons a xs)
  then show ?case by (cases k) auto
qed

lemma sjf_inv_nth_le_sum:
  assumes "sjf_inv ps s" "i < length ps"
  shows "sjf_remainingTime s ! i \<le> sum_list (sjf_remainingTime s)"
proof (rule member_le_sum_list)
  show "sjf_remainingTime s ! i \<in> set (sjf_remainingTime s)"
    using assms by (simp add: sjf_inv_def)
next
  fix x assume "x \<in> set (sjf_remainingTime s)"
  then obtain j where "j < length (sjf_remainingTime s)" "x = sjf_remainingTime s ! j"
    by (auto simp: in_set_conv_nth)
  then show "0 \<le> x" using assms(1) by (simp add: sjf_inv_def)
qed

lemma sjf_inv_unfinished:
  assumes inv: "sjf_inv ps s" and lt: "sjf_numOfCompletedProcesses s < length ps"
  shows "\<exists>i\<le>sjf_numOfCompletedProcesses s. i < length ps \<and> 0 < sjf_remainingTime s ! i"
proof (rule ccontr)
  assume neg: "\<not> (\<exists>i\<le>sjf_numOfCompletedProcesses s. i < length ps \<and> 0 < sjf_remainingTime s ! i)"
  have z: "sjf_remainingTime s ! i = 0" if "i \<le> sjf_numOfCompletedProcesses s" for i
  proof -
    have il: "i < length ps" using that lt by simp
    then have "0 \<le> sjf_remainingTime s ! i" using inv by (simp add: sjf_inv_def)
    moreover have "\<not> 0 < sjf_remainingTime s ! i" using neg that il by blast
    ultimately show ?thesis by simp
  qed
  have "{i. i \<le> sjf_numOfCompletedProcesses s} \<subseteq> {i. i < length ps \<and> sjf_remainingTime s ! i = 0}"
    using z lt by auto
  then have "card {i. i \<le> sjf_numOfCompletedProcesses s}
             \<le> card {i. i < length ps \<and> sjf_remainingTime s ! i = 0}"
    by (intro card_mono) auto
  moreover have "card {i. i \<le> sjf_numOfCompletedProcesses s} = Suc (sjf_numOfCompletedProcesses s)"
    by (simp add: atMost_def[symmetric])
  ultimately show False using inv by (simp add: sjf_inv_def)
qed

lemma sjf_jump_finds_candidate:
  assumes b: "burst_ok ps" and srt: "sorted (map ArrivalTime ps)"
    and inv: "sjf_inv ps s" and lt: "sjf_numOfCompletedProcesses s < length ps"
  shows "\<exists>j. sjf_candidate ps (sjf_remainingTime s)
                (ArrivalTime (ps ! sjf_numOfCompletedProcesses s)) j"
proof -
  from sjf_inv_unfinished[OF inv lt] obtain i
    where i: "i \<le> sjf_numOfCompletedProcesses s" "i < length ps" "0 < sjf_remainingTime s ! i"
    by blast
  have "map ArrivalTime ps ! i \<le> map ArrivalTime ps ! sjf_numOfCompletedProcesses s"
    using srt i(1) lt by (intro sorted_nth_mono) auto
  then have arr: "ArrivalTime (ps ! i) \<le> ArrivalTime (ps ! sjf_numOfCompletedProcesses s)"
    using i(2) lt by simp
  have "sjf_remainingTime s ! i \<le> BurstDuration (ps ! i)"
    using inv i(2) by (simp add: sjf_inv_def)
  moreover have "BurstDuration (ps ! i) < MaxInt64"
    using b i(2) by (simp add: burst_ok_def)
  ultimately have "sjf_remainingTime s ! i < MaxInt64" by simp
  then have "sjf_candidate ps (sjf_remainingTime s)
               (ArrivalTime (ps ! sjf_numOfCompletedProcesses s)) i"
    using i arr by (simp add: sjf_candidate_def)
  then show ?thesis ..
qed

lemma sjf_fuel_step:
  assumes b: "burst_ok ps" and srt: "sorted (map ArrivalTime ps)"
    and inv: "sjf_inv ps s" and lt: "sjf_numOfCompletedProcesses s < length ps"
  shows "sjf_fuel ps (sjf_iter ps s) < sjf_fuel ps s"
proof -
  obtain m c where sel: "sjf_select ps (sjf_remainingTime s) (sjf_currentTime s) (sjf_currentIndex s) = (m, c)"
    by (cases "sjf_select ps (sjf_remainingTime s) (sjf_currentTime s) (sjf_currentIndex s)") auto
  from sjf_inv_unfinished[OF inv lt] obtain i
    where i: "i < length ps" "0 < sjf_remainingTime s ! i" by blast
  have R1: "1 \<le> sum_list (sjf_remainingTime s)"
    using sjf_inv_nth_le_sum[OF inv i(1)] i(2) by simp
  show ?thesis
  proof (cases "m = MaxInt64")
    case True
    with sjf_select_cases[OF sel]
    have none: "\<not> (\<exists>j. sjf_candidate ps (sjf_remainingTime s) (sjf_currentTime s) j)" by auto
    have some: "\<exists>j. sjf_candidate ps (sjf_remainingTime (sjf_iter ps s)) (sjf_currentTime (sjf_iter ps s)) j"
      unfolding sjf_iter_jump[OF sel True] using sjf_jump_finds_candidate[OF b srt inv lt] by simp
    have same: "sjf_remainingTime (sjf_iter ps s) = sjf_remainingTime s"
      unfolding sjf_iter_jump[OF sel True] by simp
    show ?thesis
      unfolding sjf_fuel_def using none some same R1 by simp
  next
    case False
    let ?rem = "sjf_remainingTime s"
    from sjf_select_cases[OF sel] False
    have cand: "sjf_candidate ps ?rem (sjf_currentTime s) c" by blast
    then have cl: "c < length ps" and pos: "0 < ?rem ! c" and ltm: "?rem ! c < MaxInt64"
      by (auto simp: sjf_candidate_def)
    have dec: "sub64 (?rem ! c) 1 = ?rem ! c - 1"
      using pos ltm by (simp add: sub64_def i64_id MaxInt64_def)
    have len: "length ?rem = length ps" using inv by (simp add: sjf_inv_def)
    have "sum_list (sjf_remainingTime (sjf_iter ps s)) = sum_list ?rem - 1"
      unfolding sjf_iter_tick(1)[OF sel False] dec using len cl
      by (simp add: sum_list_update_int)
    then have "2 * nat (sum_list (sjf_remainingTime (sjf_iter ps s))) + 2 = 2 * nat (sum_list ?rem)"
      using R1 by simp
    then show ?thesis
      unfolding sjf_fuel_def using cand by auto
  qed
qed

lemma sjf_loop_n_terminates:
  assumes b: "burst_ok ps" and srt: "sorted (map ArrivalTime ps)"
  shows "sjf_inv ps s \<Longrightarrow> sjf_fuel ps s \<le> k \<Longrightarrow> \<exists>s'. sjf_loop_n k ps s = Some s'"
proof (induction k arbitrary: s)
  case 0
  show ?case
  proof (cases "sjf_numOfCompletedProcesses s < length ps")
    case True
    from sjf_fuel_step[OF b srt "0.prems"(1) True] "0.prems"(2) show ?thesis by simp
  next
    case False
    then show ?thesis by simp
  qed
next
  case (Suc k)
  show ?case
  proof (cases "sjf_numOfCompletedProcesses s < length ps")
    case True
    have "sjf_fuel ps (sjf_iter ps s) \<le> k"
      using sjf_fuel_step[OF b srt Suc.prems(1) True] Suc.prems(2) by simp
    from Suc.IH[OF sjf_inv_step[OF b Suc.prems(1)] this] True show ?thesis by simp
  next
    case False
    then show ?thesis by simp
  qed
qed

lemma sjf_loop_n_loop: "sjf_loop_n k ps s = Some s' \<Longrightarrow> sjf_loop ps s = Some s'"
proof (induction k arbitrary: s)
  case 0
  then show ?case by (subst sjf_loop.simps) (simp split: if_splits)
next
  case (Suc k)
  then show ?case by (subst sjf_loop.simps) (simp split: if_splits)
qed

lemma sjf_fuel_init: "sjf_fuel ps (sjf_init ps) \<le> 2 * nat (sum_list (map BurstDuration ps))"
  by (simp add: sjf_fuel_def sjf_init_def)

lemma sjf_loop_n_reachable:
  "sjf_loop_n k ps s = Some s' \<Longrightarrow> sjf_reachable ps s \<Longrightarrow>
   sjf_reachable ps s' \<and> \<not> sjf_numOfCompletedProcesses s' < length ps"
proof (induction k arbitrary: s)
  case 0
  then show ?case by (simp split: if_splits)
next
  case (Suc k)
  show ?case
  proof (cases "sjf_numOfCompletedProcesses s < length ps")
    case True
    with Suc.prems have "sjf_loop_n k ps (sjf_iter ps s) = Some s'" by simp
    from Suc.IH[OF this sjf_reachable.step[OF Suc.prems(2) True]] show ?thesis .
  next
    case False
    with Suc.prems show ?thesis by simp
  qed
qed

lemma sjf_reachable_inv:
  assumes "burst_ok ps"
  shows "sjf_reachable ps s \<Longrightarrow> sjf_inv ps s"
  by (induction rule: sjf_reachable.induct) (simp_all add: assms sjf_inv_init sjf_inv_step)

section \<open>The clock of SJFSchedule and the target of its jump\<close>

lemma clock_ok_burst_le_sum:
  assumes "clock_ok ps" "p \<in> set ps"
  shows "BurstDuration p \<le> sum_list (map BurstDuration ps)"
proof (rule member_le_sum_list)
  show "BurstDuration p \<in> set (map BurstDuration ps)" using assms(2) by simp
next
  fix x assume "x \<in> set (map BurstDuration ps)"
  then show "0 \<le> x" using assms(1) by (auto simp: clock_ok_def)
qed

lemma clock_ok_burst_ok: "clock_ok ps \<Longrightarrow> burst_ok ps"
  unfolding burst_ok_def
proof
  fix p assume c: "clock_ok ps" and p: "p \<in> set ps"
  from clock_ok_burst_le_sum[OF c p] c p
  show "0 < BurstDuration p \<and> BurstDuration p < MaxInt64"
    by (auto simp: clock_ok_def)
qed

lemma sum_list_pointwise_le:
  fixes xs ys :: "int list"
  shows "length xs = length ys \<Longrightarrow> (\<forall>i<length xs. xs ! i \<le> ys ! i) \<Longrightarrow> sum_list xs \<le> sum_list ys"
proof (induction xs ys rule: list_induct2)
  case Nil
  then show ?case by simp
next
  case (Cons x xs y ys)
  have "x \<le> y" using Cons.prems by (metis length_greater_0_conv list.discI nth_Cons_0)
  moreover have "\<forall>i<length xs. xs ! i \<le> ys ! i"
    using Cons.prems by (metis Suc_less_eq length_Cons nth_Cons_Suc)
  ultimately show ?case using Cons.IH by simp
qed

lemma sjf_inv_sum_le:
  assumes "sjf_inv ps s"
  shows "sum_list (sjf_remainingTime s) \<le> sum_list (map BurstDuration ps)"
  using assms by (intro sum_list_pointwise_le) (auto simp: sjf_inv_def)

lemma sjf_clock_inv_init: "clock_ok ps \<Longrightarrow> sjf_clock_inv ps (sjf_init ps)"
proof -
  assume c: "clock_ok ps"
  have "sum_list (map BurstDuration ps) < MaxInt64"
  proof (cases ps)
    case Nil
    then show ?thesis by (simp add: MaxInt64_def)
  next
    case (Cons p ps')
    then have "p \<in> set ps" by simp
    with c show ?thesis by (fastforce simp: clock_ok_def)
  qed
  then show ?thesis by (simp add: sjf_clock_inv_def sjf_init_def)
qed

lemma sjf_jump_forward:
  assumes c: "clock_ok ps" and srt: "sorted (map ArrivalTime ps)"
    and inv: "sjf_inv ps s" and lt: "sjf_numOfCompletedProcesses s < length ps"
    and none: "\<forall>j. \<not> sjf_candidate ps (sjf_remainingTime s) (sjf_currentTime s) j"
  shows "sjf_currentTime s < ArrivalTime (ps ! sjf_numOfCompletedProcesses s)"
proof -
  from sjf_inv_unfinished[OF inv lt] obtain i
    where i: "i \<le> sjf_numOfCompletedProcesses s" "i < length ps" "0 < sjf_remainingTime s ! i"
    by blast
  have "sjf_remainingTime s ! i \<le> BurstDuration (ps ! i)"
    using inv i(2) by (simp add: sjf_inv_def)
  moreover have "BurstDuration (ps ! i) < MaxInt64"
    using clock_ok_burst_ok[OF c] i(2) by (simp add: burst_ok_def)
  ultimately have "sjf_remainingTime s ! i < MaxInt64" by simp
  with none[rule_format, of i] i have gt: "sjf_currentTime s < ArrivalTime (ps ! i)"
    by (simp add: sjf_candidate_def)
  have "map ArrivalTime ps ! i \<le> map ArrivalTime ps ! sjf_numOfCompletedProcesses s"
    using srt i(1) lt by (intro sorted_nth_mono) auto
  then show ?thesis using gt i(2) lt by simp
qed

lemma sjf_clock_inv_step:
  assumes c: "clock_ok ps" and srt: "sorted (map ArrivalTime ps)"
    and inv: "sjf_inv ps s" and ci: "sjf_clock_inv ps s"
    and lt: "sjf_numOfCompletedProcesses s < length ps"
  shows "sjf_clock_inv ps (sjf_iter ps s)"
proof -
  obtain m k where sel: "sjf_select ps (sjf_remainingTime s) (sjf_currentTime s) (sjf_currentIndex s) = (m, k)"
    by (cases "sjf_select ps (sjf_remainingTime s) (sjf_currentTime s) (sjf_currentIndex s)") auto
  let ?rem = "sjf_remainingTime s"
  let ?t = "sjf_currentTime s"
  show ?thesis
  proof (cases "m = MaxInt64")
    case True
    with sjf_select_cases[OF sel]
    have none: "\<forall>j. \<not> sjf_candidate ps ?rem ?t j" by auto
    let ?a = "ArrivalTime (ps ! sjf_numOfCompletedProcesses s)"
    have fw: "?t < ?a" by (rule sjf_jump_forward[OF c srt inv lt none])
    have mem: "ps ! sjf_numOfCompletedProcesses s \<in> set ps" using lt by simp
    have "?a + sum_list (map BurstDuration ps) < MaxInt64"
      using c mem by (simp add: clock_ok_def)
    then have bd: "?a + sum_list ?rem < MaxInt64"
      using sjf_inv_sum_le[OF inv] by simp
    have a0: "0 \<le> ?a" using c mem by (simp add: clock_ok_def)
    have arr: "\<forall>i<length ps. ?rem ! i \<noteq> BurstDuration (ps ! i) \<longrightarrow> ArrivalTime (ps ! i) \<le> ?a"
      using ci fw by (fastforce simp: sjf_clock_inv_def)
    show ?thesis
      unfolding sjf_iter_jump[OF sel True] sjf_clock_inv_def using a0 bd arr by simp
  next
    case False
    from sjf_select_cases[OF sel] False
    have cand: "sjf_candidate ps ?rem ?t k" by blast
    then have kl: "k < length ps" and pos: "0 < ?rem ! k" and ltm: "?rem ! k < MaxInt64"
      and ak: "ArrivalTime (ps ! k) \<le> ?t"
      by (auto simp: sjf_candidate_def)
    have dec: "sub64 (?rem ! k) 1 = ?rem ! k - 1"
      using pos ltm by (simp add: sub64_def i64_id MaxInt64_def)
    have len: "length ?rem = length ps" using inv by (simp add: sjf_inv_def)
    have t0: "0 \<le> ?t" and bd: "?t + sum_list ?rem < MaxInt64" using ci by (auto simp: sjf_clock_inv_def)
    have "?rem ! k \<le> sum_list ?rem" by (rule sjf_inv_nth_le_sum[OF inv kl])
    then have "?t + 1 < MaxInt64" using bd pos by simp
    then have inc: "add64 ?t 1 = ?t + 1"
      using t0 by (simp add: add64_def i64_id MaxInt64_def)
    have sm: "sum_list (?rem[k := ?rem ! k - 1]) = sum_list ?rem - 1"
      using len kl by (simp add: sum_list_update_int)
    have arr: "\<forall>i<length ps. ?rem[k := ?rem ! k - 1] ! i \<noteq> BurstDuration (ps ! i)
                 \<longrightarrow> ArrivalTime (ps ! i) \<le> ?t + 1"
    proof (intro allI impI)
      fix i assume il: "i < length ps" and ne: "?rem[k := ?rem ! k - 1] ! i \<noteq> BurstDuration (ps ! i)"
      show "ArrivalTime (ps ! i) \<le> ?t + 1"
      proof (cases "i = k")
        case True
        then show ?thesis using ak by simp
      next
        case False
        then have "?rem ! i \<noteq> BurstDuration (ps ! i)" using ne by simp
        then have "ArrivalTime (ps ! i) \<le> ?t" using ci il by (simp add: sjf_clock_inv_def)
        then show ?thesis by simp
      qed
    qed
    show ?thesis
      unfolding sjf_clock_inv_def sjf_iter_tick(1,2)[OF sel False] dec inc
      using t0 bd sm arr by simp
  qed
qed

lemma sjf_reachable_clock_inv:
  assumes "clock_ok ps" "sorted (map ArrivalTime ps)"
  shows "sjf_reachable ps s \<Longrightarrow> sjf_clock_inv ps s"
proof (induction rule: sjf_reachable.induct)
  case init
  show ?case by (rule sjf_clock_inv_init[OF assms(1)])
next
  case (step s)
  have "sjf_inv ps s"
    by (rule sjf_reachable_inv[OF clock_ok_burst_ok[OF assms(1)] step.hyps(1)])
  from sjf_clock_inv_step[OF assms this step.IH step.hyps(2)] show ?case .
qed

lemma downward_closed_eq_lessThan:
  fixes Z :: "nat set"
  assumes fin: "finite Z" and dc: "\<And>i j. i \<in> Z \<Longrightarrow> j < i \<Longrightarrow> j \<in> Z"
  shows "Z = {..<card Z}"
proof -
  have "Z \<subseteq> {..<card Z}"
  proof
    fix m assume m: "m \<in> Z"
    have "{..m} \<subseteq> Z"
    proof
      fix j assume "j \<in> {..m}"
      then show "j \<in> Z" using dc[OF m, of j] m by (cases "j = m") auto
    qed
    then have "card {..m} \<le> card Z" using fin by (rule card_mono[rotated])
    then show "m \<in> {..<card Z}" by simp
  qed
  moreover have "card {..<card Z} = card Z" by simp
  ultimately show ?thesis using fin by (metis card_subset_eq finite_lessThan)
qed

lemma sjf_eligible_candidate:
  assumes b: "burst_ok ps" and inv: "sjf_inv ps s"
  shows "sjf_eligible ps s j \<longleftrightarrow> sjf_candidate ps (sjf_remainingTime s) (sjf_currentTime s) j"
proof (cases "j < length ps")
  case True
  have "sjf_remainingTime s ! j \<le> BurstDuration (ps ! j)"
    using inv True by (simp add: sjf_inv_def)
  moreover have "BurstDuration (ps ! j) < MaxInt64"
    using b True by (simp add: burst_ok_def)
  ultimately show ?thesis by (auto simp: sjf_eligible_def sjf_candidate_def)
next
  case False
  then show ?thesis by (simp add: sjf_eligible_def sjf_candidate_def)
qed

lemma sjf_jump_target:
  assumes c: "clock_ok ps" and srt: "sorted (map ArrivalTime ps)"
    and inv: "sjf_inv ps s" and ci: "sjf_clock_inv ps s"
    and lt: "sjf_numOfCompletedProcesses s < length ps"
    and none: "\<forall>j. \<not> sjf_candidate ps (sjf_remainingTime s) (sjf_currentTime s) j"
  shows "0 < sjf_remainingTime s ! sjf_numOfCompletedProcesses s
         \<and> (\<forall>j<sjf_numOfCompletedProcesses s. sjf_remainingTime s ! j = 0)"
proof -
  let ?rem = "sjf_remainingTime s"
  let ?t = "sjf_currentTime s"
  define Z where "Z = {i. i < length ps \<and> ?rem ! i = 0}"
  have b: "burst_ok ps" by (rule clock_ok_burst_ok[OF c])
  have Zarr: "i \<in> Z \<longleftrightarrow> i < length ps \<and> ArrivalTime (ps ! i) \<le> ?t" for i
  proof (cases "i < length ps")
    case True
    have nn: "0 \<le> ?rem ! i" and le: "?rem ! i \<le> BurstDuration (ps ! i)"
      using inv True by (auto simp: sjf_inv_def)
    have bp: "0 < BurstDuration (ps ! i)" "BurstDuration (ps ! i) < MaxInt64"
      using b True by (auto simp: burst_ok_def)
    show ?thesis
    proof
      assume "i \<in> Z"
      then have "?rem ! i \<noteq> BurstDuration (ps ! i)" using bp by (simp add: Z_def)
      then show "i < length ps \<and> ArrivalTime (ps ! i) \<le> ?t"
        using ci True by (simp add: sjf_clock_inv_def)
    next
      assume a: "i < length ps \<and> ArrivalTime (ps ! i) \<le> ?t"
      have "\<not> 0 < ?rem ! i"
        using none[rule_format, of i] a le bp by (auto simp: sjf_candidate_def)
      then show "i \<in> Z" using nn True by (simp add: Z_def)
    qed
  next
    case False
    then show ?thesis by (simp add: Z_def)
  qed
  have dc: "j \<in> Z" if "i \<in> Z" "j < i" for i j
  proof -
    have il: "i < length ps" and ai: "ArrivalTime (ps ! i) \<le> ?t" using that(1) Zarr by auto
    have "map ArrivalTime ps ! j \<le> map ArrivalTime ps ! i"
      using srt that(2) il by (intro sorted_nth_mono) auto
    then have "ArrivalTime (ps ! j) \<le> ?t" using ai il that(2) by simp
    then show ?thesis using Zarr il that(2) by simp
  qed
  have fin: "finite Z" by (simp add: Z_def)
  have cz: "card Z = sjf_numOfCompletedProcesses s" using inv by (simp add: sjf_inv_def Z_def)
  have Zeq: "Z = {..<sjf_numOfCompletedProcesses s}"
    using downward_closed_eq_lessThan[OF fin dc] cz by simp
  have "sjf_numOfCompletedProcesses s \<notin> Z" using Zeq by simp
  then have "?rem ! sjf_numOfCompletedProcesses s \<noteq> 0" using lt by (simp add: Z_def)
  moreover have "0 \<le> ?rem ! sjf_numOfCompletedProcesses s" using inv lt by (simp add: sjf_inv_def)
  ultimately have "0 < ?rem ! sjf_numOfCompletedProcesses s" by simp
  moreover have "\<forall>j<sjf_numOfCompletedProcesses s. ?rem ! j = 0"
  proof (intro allI impI)
    fix j assume "j < sjf_numOfCompletedProcesses s"
    then have "j \<in> Z" using Zeq by simp
    then show "?rem ! j = 0" by (simp add: Z_def)
  qed
  ultimately show ?thesis by simp
qed

section \<open>The heap keeps its processes; the Priority loop consumes one unit of burst per pass\<close>

lemma length_up [simp]: "length (up h j) = length h"
proof (induction h j rule: up.induct)
  case (1 h j)
  show ?case
  proof (cases "(j - 1) div 2 = j \<or> \<not> Less h j ((j - 1) div 2)")
    case True
    then show ?thesis by (subst up.simps) (auto simp: Let_def)
  next
    case False
    then have "up h j = up (swap h ((j - 1) div 2) j) ((j - 1) div 2)"
      by (subst up.simps) (auto simp: Let_def)
    with 1[OF refl False] show ?thesis by simp
  qed
qed

lemma mset_up: "j < length h \<Longrightarrow> mset (up h j) = mset h"
proof (induction h j rule: up.induct)
  case (1 h j)
  show ?case
  proof (cases "(j - 1) div 2 = j \<or> \<not> Less h j ((j - 1) div 2)")
    case True
    then show ?thesis by (subst up.simps) (auto simp: Let_def)
  next
    case False
    then have eq: "up h j = up (swap h ((j - 1) div 2) j) ((j - 1) div 2)"
      by (subst up.simps) (auto simp: Let_def)
    have lt: "(j - 1) div 2 < length h" using "1.prems" by simp
    have "mset (up (swap h ((j - 1) div 2) j) ((j - 1) div 2)) = mset (swap h ((j - 1) div 2) j)"
      using 1(1)[OF refl False] lt by simp
    then show ?thesis using eq lt "1.prems" by simp
  qed
qed

lemma length_down [simp]: "length (down h i n) = length h"
proof (induction h i n rule: down.induct)
  case (1 h i n)
  define j1 where "j1 = 2 * i + 1"
  define j where "j = (if j1 + 1 < n \<and> Less h (j1 + 1) j1 then j1 + 1 else j1)"
  show ?case
  proof (cases "j1 \<ge> n \<or> \<not> Less h j i")
    case True
    then have "down h i n = h"
      by (subst down.simps) (auto simp: Let_def j1_def j_def)
    then show ?thesis by simp
  next
    case False
    then have eq: "down h i n = down (swap h i j) j n"
      by (subst down.simps) (auto simp: Let_def j1_def j_def)
    have "length (down (swap h i j) j n) = length (swap h i j)"
      using False by (intro 1[OF j1_def[symmetric, THEN sym] _ j_def[symmetric, THEN sym]]) auto
    then show ?thesis using eq by simp
  qed
qed

lemma mset_down: "n \<le> length h \<Longrightarrow> i < length h \<Longrightarrow> mset (down h i n) = mset h"
proof (induction h i n rule: down.induct)
  case (1 h i n)
  define j1 where "j1 = 2 * i + 1"
  define j where "j = (if j1 + 1 < n \<and> Less h (j1 + 1) j1 then j1 + 1 else j1)"
  show ?case
  proof (cases "j1 \<ge> n \<or> \<not> Less h j i")
    case True
    then have "down h i n = h"
      by (subst down.simps) (auto simp: Let_def j1_def j_def)
    then show ?thesis by simp
  next
    case False
    then have eq: "down h i n = down (swap h i j) j n"
      by (subst down.simps) (auto simp: Let_def j1_def j_def)
    have jn: "j < n" using False by (auto simp: j_def)
    then have jl: "j < length h" using "1.prems" by simp
    have "mset (down (swap h i j) j n) = mset (swap h i j)"
      using False "1.prems" jl
      by (intro 1(1)[OF j1_def[symmetric, THEN sym] _ j_def[symmetric, THEN sym]]) auto
    then show ?thesis using eq jl "1.prems" by simp
  qed
qed

lemma mset_heapPush [simp]: "mset (heapPush h x) = add_mset x (mset h)"
  by (simp add: heapPush_def mset_up)

lemma length_heapPush [simp]: "length (heapPush h x) = Suc (length h)"
  by (simp add: heapPush_def)

lemma heapPop_empty [simp]: "heapPop [] = Inl IndexOutOfRange"
  by (simp add: heapPop_def)

lemma heapPop_mset:
  assumes "heapPop h = Inr (x, h')"
  shows "mset h = add_mset x (mset h')"
proof -
  have ne: "h \<noteq> []" using assms by (auto simp: heapPop_def)
  define n where "n = length h - 1"
  define h1 where "h1 = down (swap h 0 n) 0 n"
  have nl: "n < length h" using ne by (simp add: n_def)
  have x: "x = h1 ! n" and h': "h' = take n h1"
    using assms ne by (auto simp: heapPop_def Let_def n_def h1_def)
  have len: "length h1 = Suc n" using ne by (simp add: h1_def n_def)
  have m: "mset h1 = mset h"
    unfolding h1_def using nl ne by (simp add: mset_down)
  have "h1 = take n h1 @ [h1 ! n]"
    using len by (metis lessI take_Suc_conv_app_nth take_all order_refl)
  then have "mset h1 = add_mset (h1 ! n) (mset (take n h1))"
    by (metis mset.simps(2) mset_append union_mset_add_mset_right add.right_neutral mset.simps(1))
  then show ?thesis using m x h' by simp
qed

lemma heapPop_nonempty: "h \<noteq> [] \<Longrightarrow> \<exists>x h'. heapPop h = Inr (x, h')"
  by (simp add: heapPop_def Let_def)

lemma sum_list_map_mset:
  fixes f :: "'a \<Rightarrow> int"
  shows "mset xs = mset ys \<Longrightarrow> sum_list (map f xs) = sum_list (map f ys)"
  by (metis mset_map sum_mset_sum_list)

lemma sum_burst_heapPush [simp]:
  "sum_list (map BurstDuration (heapPush h x)) = BurstDuration x + sum_list (map BurstDuration h)"
proof -
  have "mset (heapPush h x) = mset (x # h)" by simp
  from sum_list_map_mset[OF this, of BurstDuration] show ?thesis by simp
qed

lemma set_heapPush [simp]: "set (heapPush h x) = insert x (set h)"
proof -
  have "mset (heapPush h x) = mset (x # h)" by simp
  then have "set (heapPush h x) = set (x # h)" by (rule mset_eq_setD)
  then show ?thesis by simp
qed

lemma heapPop_sum:
  assumes "heapPop h = Inr (x, h')"
  shows "sum_list (map BurstDuration h) = BurstDuration x + sum_list (map BurstDuration h')"
proof -
  have "mset h = mset (x # h')" using heapPop_mset[OF assms] by simp
  from sum_list_map_mset[OF this, of BurstDuration] show ?thesis by simp
qed

lemma heapPop_set:
  assumes "heapPop h = Inr (x, h')"
  shows "set h = insert x (set h')"
proof -
  have "mset h = mset (x # h')" using heapPop_mset[OF assms] by simp
  then have "set h = set (x # h')" by (rule mset_eq_setD)
  then show ?thesis by simp
qed

lemma prio_admit_frame:
  "prio_currentTime (prio_admit ps s) = prio_currentTime s
   \<and> prio_gantt (prio_admit ps s) = prio_gantt s
   \<and> prio_turnAroundTimes (prio_admit ps s) = prio_turnAroundTimes s
   \<and> prio_waitingTimes (prio_admit ps s) = prio_waitingTimes s
   \<and> prio_lastCompletionTime (prio_admit ps s) = prio_lastCompletionTime s"
proof (induction ps s rule: prio_admit.induct)
  case (1 ps s)
  show ?case
  proof (cases "prio_insertedProcessIdx s < length ps
         \<and> ArrivalTime (ps ! prio_insertedProcessIdx s) = prio_currentTime s")
    case True
    show ?thesis using 1[OF True] True by (subst (1 2 3 4 5) prio_admit.simps) simp
  next
    case False
    then show ?thesis by (subst (1 2 3 4 5) prio_admit.simps) auto
  qed
qed

lemma prio_admit_work:
  "prio_work ps (prio_admit ps s) = prio_work ps s"
proof (induction ps s rule: prio_admit.induct)
  case (1 ps s)
  show ?case
  proof (cases "prio_insertedProcessIdx s < length ps
         \<and> ArrivalTime (ps ! prio_insertedProcessIdx s) = prio_currentTime s")
    case True
    let ?s' = "s\<lparr> prio_minHeap := heapPush (prio_minHeap s) (ps ! prio_insertedProcessIdx s),
                 prio_insertedProcessIdx := prio_insertedProcessIdx s + 1 \<rparr>"
    have eq: "prio_admit ps s = prio_admit ps ?s'"
      using True by (subst prio_admit.simps) simp
    have "drop (prio_insertedProcessIdx s) ps
          = ps ! prio_insertedProcessIdx s # drop (Suc (prio_insertedProcessIdx s)) ps"
      using True by (simp add: Cons_nth_drop_Suc)
    then have "prio_work ps ?s' = prio_work ps s"
      by (simp add: prio_work_def)
    then show ?thesis using 1[OF True] eq by simp
  next
    case False
    then have "prio_admit ps s = s" by (subst prio_admit.simps) auto
    then show ?thesis by simp
  qed
qed

lemma prio_admit_inv:
  "burst_ok ps \<Longrightarrow> prio_inv s \<Longrightarrow> prio_inv (prio_admit ps s)"
proof (induction ps s rule: prio_admit.induct)
  case (1 ps s)
  show ?case
  proof (cases "prio_insertedProcessIdx s < length ps
         \<and> ArrivalTime (ps ! prio_insertedProcessIdx s) = prio_currentTime s")
    case True
    let ?s' = "s\<lparr> prio_minHeap := heapPush (prio_minHeap s) (ps ! prio_insertedProcessIdx s),
                 prio_insertedProcessIdx := prio_insertedProcessIdx s + 1 \<rparr>"
    have eq: "prio_admit ps s = prio_admit ps ?s'"
      using True by (subst prio_admit.simps) simp
    have "ps ! prio_insertedProcessIdx s \<in> set ps" using True by simp
    then have "0 < BurstDuration (ps ! prio_insertedProcessIdx s)
               \<and> BurstDuration (ps ! prio_insertedProcessIdx s) < MaxInt64"
      using "1.prems"(1) by (simp add: burst_ok_def)
    then have "prio_inv ?s'" using "1.prems"(2) by (simp add: prio_inv_def)
    from 1(1)[OF True "1.prems"(1) this] eq show ?thesis by simp
  next
    case False
    then have "prio_admit ps s = s" by (subst prio_admit.simps) auto
    then show ?thesis using "1.prems" by simp
  qed
qed

lemma prio_run_heap:
  "prio_minHeap (prio_run m s x h) =
     (if sub64 (BurstDuration x) 1 = 0 then h
      else heapPush h (x\<lparr> BurstDuration := sub64 (BurstDuration x) 1 \<rparr>))"
  and prio_run_inserted:
  "prio_insertedProcessIdx (prio_run m s x h) = prio_insertedProcessIdx s"
  and prio_run_time:
  "prio_currentTime (prio_run m s x h) = add64 (prio_currentTime s) 1"
  by (simp_all add: prio_run_def Let_def)

lemma prio_iter_continue:
  assumes it: "prio_iter ps m s = Inr (False, s')"
  obtains x h where
    "prio_minHeap (prio_admit ps s) \<noteq> []"
    "heapPop (prio_minHeap (prio_admit ps s)) = Inr (x, h)"
    "s' = prio_run m (prio_admit ps s) x h"
proof -
  let ?a = "prio_admit ps s"
  show thesis
  proof (cases "prio_minHeap ?a = []")
    case True
    then have "prio_iter ps m s = Inr (True, ?a) \<or> prio_iter ps m s = Inl IndexOutOfRange"
      by (auto simp: prio_iter_def Let_def)
    with it show ?thesis by auto
  next
    case False
    from heapPop_nonempty[OF False] obtain x h
      where pop: "heapPop (prio_minHeap ?a) = Inr (x, h)" by blast
    have "prio_iter ps m s = Inr (False, prio_run m ?a x h)"
      using False pop by (simp add: prio_iter_def Let_def)
    with it have "s' = prio_run m ?a x h" by simp
    with False pop show ?thesis by (rule that)
  qed
qed

lemma prio_iter_step:
  assumes b: "burst_ok ps" and inv: "prio_inv s"
    and it: "prio_iter ps m s = Inr (False, s')"
  shows "prio_inv s' \<and> prio_work ps s' = prio_work ps s - 1"
proof -
  let ?a = "prio_admit ps s"
  from prio_iter_continue[OF it] obtain x h where
    pop: "heapPop (prio_minHeap ?a) = Inr (x, h)" and s': "s' = prio_run m ?a x h"
    by blast
  have ia: "prio_inv ?a" by (rule prio_admit_inv[OF b inv])
  have xin: "x \<in> set (prio_minHeap ?a)" and hsub: "set h \<subseteq> set (prio_minHeap ?a)"
    using heapPop_set[OF pop] by auto
  have bx: "0 < BurstDuration x" "BurstDuration x < MaxInt64"
    using ia xin by (auto simp: prio_inv_def)
  have dec: "sub64 (BurstDuration x) 1 = BurstDuration x - 1"
    using bx by (simp add: sub64_def i64_id MaxInt64_def)
  have ih: "\<forall>p\<in>set h. 0 < BurstDuration p \<and> BurstDuration p < MaxInt64"
    using ia hsub by (auto simp: prio_inv_def)
  have inv': "prio_inv s'"
    unfolding prio_inv_def s' prio_run_heap dec using ih bx by auto
  have "prio_work ps s' = prio_work ps ?a - 1"
    unfolding prio_work_def s' prio_run_heap prio_run_inserted dec
    using heapPop_sum[OF pop] by simp
  then show ?thesis using inv' prio_admit_work[of ps s] by simp
qed

lemma prio_work_nonneg:
  assumes b: "burst_ok ps" and inv: "prio_inv s"
  shows "0 \<le> prio_work ps s"
proof -
  have "0 \<le> sum_list (map BurstDuration (prio_minHeap s))"
    using inv by (intro sum_list_nonneg) (auto simp: prio_inv_def)
  moreover have "0 \<le> sum_list (map BurstDuration (drop (prio_insertedProcessIdx s) ps))"
    using b by (intro sum_list_nonneg) (auto simp: burst_ok_def dest!: in_set_dropD)
  ultimately show ?thesis by (simp add: prio_work_def)
qed

lemma prio_loop_n_terminates:
  assumes b: "burst_ok ps"
  shows "prio_inv s \<Longrightarrow> prio_work ps s < int k \<Longrightarrow> \<exists>r. prio_loop_n k ps m s = Some r"
proof (induction k arbitrary: s)
  case 0
  with prio_work_nonneg[OF b "0.prems"(1)] show ?case by simp
next
  case (Suc k)
  show ?case
  proof (cases "prio_iter ps m s")
    case (Inl e)
    then show ?thesis by simp
  next
    case (Inr sr)
    obtain stop s' where sr: "sr = (stop, s')" by (cases sr)
    show ?thesis
    proof (cases stop)
      case True
      with Inr sr show ?thesis by simp
    next
      case False
      with Inr sr have it: "prio_iter ps m s = Inr (False, s')" by simp
      from prio_iter_step[OF b Suc.prems(1) it] Suc.prems(2)
      have "prio_inv s'" "prio_work ps s' < int k" by auto
      from Suc.IH[OF this] it show ?thesis by simp
    qed
  qed
qed

lemma prio_loop_n_loop: "prio_loop_n k ps m s = Some r \<Longrightarrow> prio_loop ps m s = Some r"
proof (induction k arbitrary: s)
  case 0
  then show ?case by simp
next
  case (Suc k)
  show ?case
  proof (cases "prio_iter ps m s")
    case (Inl e)
    with Suc.prems show ?thesis by (subst prio_loop.simps) simp
  next
    case (Inr sr)
    obtain stop s' where sr: "sr = (stop, s')" by (cases sr)
    show ?thesis
    proof (cases stop)
      case True
      with Inr sr Suc.prems show ?thesis by (subst prio_loop.simps) simp
    next
      case False
      with Inr sr Suc.prems have "prio_loop_n k ps m s' = Some r" by simp
      from Suc.IH[OF this] Inr sr False show ?thesis by (subst prio_loop.simps) simp
    qed
  qed
qed

lemma prio_init_work: "prio_inv (prio_init ps) \<and> prio_work ps (prio_init ps) = sum_list (map BurstDuration ps)"
  by (simp add: prio_inv_def prio_work_def prio_init_def)

section \<open>A pass that changes nothing never lets the SJF loop end; FCFS opens one slice per process\<close>

lemma sjf_loop_stuck:
  assumes g: "sjf_numOfCompletedProcesses s0 < length ps0" and fp: "sjf_iter ps0 s0 = s0"
  shows "sjf_loop ps0 s0 = None"
proof (rule ccontr)
  assume "sjf_loop ps0 s0 \<noteq> None"
  then obtain y where y: "sjf_loop ps0 s0 = Some y" by auto
  have "\<not> (ps0 = ps0 \<and> s0 = s0)"
  proof (rule sjf_loop.raw_induct[where P = "\<lambda>ps s y. \<not> (ps = ps0 \<and> s = s0)", OF _ y])
    fix f ps s y
    assume ih: "\<And>ps s y. f ps s = Some y \<Longrightarrow> \<not> (ps = ps0 \<and> s = s0)"
      and body: "(if sjf_numOfCompletedProcesses s < length ps then f ps (sjf_iter ps s) else Some s) = Some y"
    show "\<not> (ps = ps0 \<and> s = s0)"
    proof
      assume e: "ps = ps0 \<and> s = s0"
      with body g fp have "f ps0 s0 = Some y" by simp
      from ih[OF this] show False by simp
    qed
  qed
  then show False by simp
qed

lemma fcfs_gantt_length:
  "length (fcfs_gantt (foldl fcfs_body s ps)) = length (fcfs_gantt s) + length ps"
  by (induction ps arbitrary: s) (simp_all add: fcfs_body_def Let_def)

section \<open>The timelines\<close>

lemma slices_ok_later: "slices_ok t g \<Longrightarrow> t \<le> t' \<Longrightarrow> slices_ok t' g"
  by (fastforce simp: slices_ok_def)

lemma slices_ok_open:
  assumes ok: "slices_ok t g" and new: "g = [] \<or> PID (last g) \<noteq> pid"
  shows "slices_ok (t + 1) (g @ [\<lparr> PID = pid, Start = t, Stop = 0 \<rparr>])"
proof -
  let ?n = "\<lparr> PID = pid, Start = t, Stop = 0 \<rparr>"
  have s: "sorted_wrt (<) (map Start (g @ [?n]))"
    using ok by (auto simp: slices_ok_def sorted_wrt_append)
  have "map PID g = [] \<or> last (map PID g) \<noteq> pid"
    using new by (auto simp: last_map)
  then have d: "distinct_adj (map PID (g @ [?n]))"
    using ok by (auto simp: slices_ok_def distinct_adj_append_iff)
  have e: "\<forall>x\<in>set (g @ [?n]). Start x < t + 1 \<and> (Stop x = 0 \<or> (Start x < Stop x \<and> Stop x \<le> t + 1))"
    using ok by (fastforce simp: slices_ok_def)
  have "g = [] \<or> Stop (last g) = 0 \<or> Stop (last g) \<le> t"
  proof (cases "g = []")
    case False
    then have "last g \<in> set g" by simp
    then show ?thesis using ok by (auto simp: slices_ok_def)
  qed simp
  then have c: "successively (\<lambda>x y. Stop x = 0 \<or> Stop x \<le> Start y) (g @ [?n])"
    using ok by (auto simp: slices_ok_def successively_append_iff)
  show ?thesis unfolding slices_ok_def using s d e c by blast
qed

lemma set_last_stop_snoc: "set_last_stop (ys @ [y]) stop = ys @ [y\<lparr> Stop := stop \<rparr>]"
  by (simp add: set_last_stop_def)

lemma slices_ok_close:
  assumes ok: "slices_ok t g" and ne: "g \<noteq> []"
  shows "slices_ok t (set_last_stop g t)"
proof -
  from ne obtain ys y where g: "g = ys @ [y]" by (cases g rule: rev_cases) auto
  let ?y = "y\<lparr> Stop := t \<rparr>"
  have s: "sorted_wrt (<) (map Start (ys @ [?y]))"
    using ok by (simp add: slices_ok_def g sorted_wrt_append)
  have d: "distinct_adj (map PID (ys @ [?y]))"
    using ok by (simp add: slices_ok_def g)
  have e: "\<forall>x\<in>set (ys @ [?y]). Start x < t \<and> (Stop x = 0 \<or> (Start x < Stop x \<and> Stop x \<le> t))"
    using ok by (auto simp: slices_ok_def g)
  have c: "successively (\<lambda>x y. Stop x = 0 \<or> Stop x \<le> Start y) (ys @ [?y])"
    using ok by (auto simp: slices_ok_def g successively_append_iff)
  show ?thesis unfolding g set_last_stop_snoc slices_ok_def using s d e c by blast
qed

lemma sjf_iter_tick_gantt:
  assumes "sjf_select ps (sjf_remainingTime s) (sjf_currentTime s) (sjf_currentIndex s) = (m, c)"
    and "m \<noteq> MaxInt64"
  shows "sjf_gantt (sjf_iter ps s) =
     (let g = (if sjf_gantt s = [] \<or> PID (last (sjf_gantt s)) \<noteq> ProcessID (ps ! c)
               then sjf_gantt s @ [\<lparr> PID = ProcessID (ps ! c), Start = sjf_currentTime s, Stop = 0 \<rparr>]
               else sjf_gantt s)
      in if (sjf_remainingTime s)[c := sub64 (sjf_remainingTime s ! c) 1] ! c = 0
         then set_last_stop g (add64 (sjf_currentTime s) 1) else g)"
  using assms by (simp add: sjf_iter_def sjf_complete_def Let_def)

lemma sjf_gantt_step:
  assumes c: "clock_ok ps" and srt: "sorted (map ArrivalTime ps)"
    and inv: "sjf_inv ps s" and ci: "sjf_clock_inv ps s"
    and lt: "sjf_numOfCompletedProcesses s < length ps"
    and ok: "slices_ok (sjf_currentTime s) (sjf_gantt s)"
  shows "slices_ok (sjf_currentTime (sjf_iter ps s)) (sjf_gantt (sjf_iter ps s))"
proof -
  obtain m k where sel: "sjf_select ps (sjf_remainingTime s) (sjf_currentTime s) (sjf_currentIndex s) = (m, k)"
    by (cases "sjf_select ps (sjf_remainingTime s) (sjf_currentTime s) (sjf_currentIndex s)") auto
  let ?rem = "sjf_remainingTime s"
  let ?t = "sjf_currentTime s"
  let ?g = "sjf_gantt s"
  show ?thesis
  proof (cases "m = MaxInt64")
    case True
    with sjf_select_cases[OF sel]
    have none: "\<forall>j. \<not> sjf_candidate ps ?rem ?t j" by auto
    have fw: "?t < ArrivalTime (ps ! sjf_numOfCompletedProcesses s)"
      by (rule sjf_jump_forward[OF c srt inv lt none])
    show ?thesis
      unfolding sjf_iter_jump[OF sel True] using slices_ok_later[OF ok] fw by simp
  next
    case False
    from sjf_select_cases[OF sel] False
    have cand: "sjf_candidate ps ?rem ?t k" by blast
    then have kl: "k < length ps" and pos: "0 < ?rem ! k" and ltm: "?rem ! k < MaxInt64"
      by (auto simp: sjf_candidate_def)
    have t0: "0 \<le> ?t" and bd: "?t + sum_list ?rem < MaxInt64" using ci by (auto simp: sjf_clock_inv_def)
    have "?rem ! k \<le> sum_list ?rem" by (rule sjf_inv_nth_le_sum[OF inv kl])
    then have "?t + 1 < MaxInt64" using bd pos by simp
    then have inc: "add64 ?t 1 = ?t + 1"
      using t0 by (simp add: add64_def i64_id MaxInt64_def)
    define g1 where "g1 = (if ?g = [] \<or> PID (last ?g) \<noteq> ProcessID (ps ! k)
               then ?g @ [\<lparr> PID = ProcessID (ps ! k), Start = ?t, Stop = 0 \<rparr>] else ?g)"
    have ok1: "slices_ok (?t + 1) g1"
    proof (cases "?g = [] \<or> PID (last ?g) \<noteq> ProcessID (ps ! k)")
      case True
      from slices_ok_open[OF ok True] True show ?thesis by (simp add: g1_def)
    next
      case False
      with slices_ok_later[OF ok, of "?t + 1"] show ?thesis by (simp add: g1_def)
    qed
    have ne1: "g1 \<noteq> []" by (auto simp: g1_def)
    have ok2: "slices_ok (?t + 1) (set_last_stop g1 (?t + 1))"
      by (rule slices_ok_close[OF ok1 ne1])
    have "sjf_gantt (sjf_iter ps s) = g1 \<or> sjf_gantt (sjf_iter ps s) = set_last_stop g1 (?t + 1)"
      unfolding sjf_iter_tick_gantt[OF sel False] inc by (simp add: g1_def Let_def)
    then show ?thesis
      unfolding sjf_iter_tick(2)[OF sel False] inc using ok1 ok2 by auto
  qed
qed

lemma sjf_reachable_gantt:
  assumes "clock_ok ps" "sorted (map ArrivalTime ps)"
  shows "sjf_reachable ps s \<Longrightarrow> slices_ok (sjf_currentTime s) (sjf_gantt s)"
proof (induction rule: sjf_reachable.induct)
  case init
  show ?case by (simp add: slices_ok_def sjf_init_def)
next
  case (step s)
  have inv: "sjf_inv ps s"
    by (rule sjf_reachable_inv[OF clock_ok_burst_ok[OF assms(1)] step.hyps(1)])
  have ci: "sjf_clock_inv ps s"
    by (rule sjf_reachable_clock_inv[OF assms step.hyps(1)])
  from sjf_gantt_step[OF assms inv ci step.hyps(2) step.IH] show ?case .
qed

lemma sjf_run_timeline:
  assumes c: "clock_ok ps" and srt: "sorted (map ArrivalTime ps)"
    and run: "SJFRun ps = Some out"
  shows "\<exists>t. slices_ok t (outGantt out)"
proof -
  have bo: "burst_ok ps" by (rule clock_ok_burst_ok[OF c])
  from sjf_loop_n_terminates[OF bo srt sjf_inv_init[OF bo] order_refl]
  obtain s where s: "sjf_loop_n (sjf_fuel ps (sjf_init ps)) ps (sjf_init ps) = Some s" by blast
  have r: "sjf_reachable ps s"
    using sjf_loop_n_reachable[OF s sjf_reachable.init] by simp
  have "sjf_loop ps (sjf_init ps) = Some s" by (rule sjf_loop_n_loop[OF s])
  with run have "out = sjf_output ps s" by (simp add: SJFRun_def)
  then have "outGantt out = sjf_gantt s" by (simp add: sjf_output_def)
  with sjf_reachable_gantt[OF c srt r] show ?thesis by auto
qed

lemma starts_ok_later: "starts_ok t g \<Longrightarrow> t \<le> t' \<Longrightarrow> starts_ok t' g"
  by (fastforce simp: starts_ok_def)

lemma starts_ok_open:
  assumes ok: "starts_ok t g" and new: "g = [] \<or> PID (last g) \<noteq> pid" and st: "t < stop"
  shows "starts_ok (t + 1) (g @ [\<lparr> PID = pid, Start = t, Stop = stop \<rparr>])"
proof -
  let ?n = "\<lparr> PID = pid, Start = t, Stop = stop \<rparr>"
  have s: "sorted_wrt (<) (map Start (g @ [?n]))"
    using ok by (auto simp: starts_ok_def sorted_wrt_append)
  have "map PID g = [] \<or> last (map PID g) \<noteq> pid"
    using new by (auto simp: last_map)
  then have d: "distinct_adj (map PID (g @ [?n]))"
    using ok by (auto simp: starts_ok_def distinct_adj_append_iff)
  have e: "\<forall>x\<in>set (g @ [?n]). Start x < t + 1 \<and> Start x < Stop x"
    using ok st by (fastforce simp: starts_ok_def)
  show ?thesis unfolding starts_ok_def using s d e by blast
qed

lemma prio_run_gantt:
  "prio_gantt (prio_run m s x h) =
     (if prio_gantt s = [] \<or> PID (last (prio_gantt s)) \<noteq> ProcessID x
      then prio_gantt s @
        [\<lparr> PID = ProcessID x, Start = prio_currentTime s,
           Stop = add64 (add64 (prio_currentTime s) (sub64 (BurstDuration x) 1)) 1 \<rparr>]
      else prio_gantt s)"
  by (simp add: prio_run_def Let_def)

lemma prio_iter_break:
  assumes "prio_iter ps m s = Inr (True, s')"
  shows "s' = prio_admit ps s"
proof (cases "prio_minHeap (prio_admit ps s) = [] \<and> \<not> prio_insertedProcessIdx (prio_admit ps s) < length ps")
  case True
  with assms show ?thesis by (simp add: prio_iter_def Let_def)
next
  case False
  with assms show ?thesis
    by (auto simp: prio_iter_def Let_def split: sum.splits if_splits)
qed

lemma prio_clock_inv_admit:
  assumes "burst_ok ps" "prio_clock_inv ps s"
  shows "prio_clock_inv ps (prio_admit ps s)"
  using assms prio_admit_frame[of ps s] prio_admit_work[of ps s] prio_admit_inv[of ps s]
  by (simp add: prio_clock_inv_def)

lemma prio_clock_inv_step:
  assumes b: "burst_ok ps" and inv: "prio_clock_inv ps s"
    and it: "prio_iter ps m s = Inr (stop, s')"
  shows "prio_clock_inv ps s'"
proof (cases stop)
  case True
  with it have "s' = prio_admit ps s" by (simp add: prio_iter_break)
  with prio_clock_inv_admit[OF b inv] show ?thesis by simp
next
  case False
  with it have it': "prio_iter ps m s = Inr (False, s')" by simp
  let ?a = "prio_admit ps s"
  from prio_iter_continue[OF it'] obtain x h where
    pop: "heapPop (prio_minHeap ?a) = Inr (x, h)" and s': "s' = prio_run m ?a x h"
    by blast
  have ia: "prio_clock_inv ps ?a" by (rule prio_clock_inv_admit[OF b inv])
  then have pa: "prio_inv ?a" and t0: "0 \<le> prio_currentTime ?a"
    and bd: "prio_currentTime ?a + prio_work ps ?a < MaxInt64"
    and ok: "starts_ok (prio_currentTime ?a) (prio_gantt ?a)"
    by (auto simp: prio_clock_inv_def)
  have pinv: "prio_inv s" using inv by (simp add: prio_clock_inv_def)
  from prio_iter_step[OF b pinv it']
  have inv': "prio_inv s'" and w': "prio_work ps s' = prio_work ps s - 1" by auto
  have wa: "prio_work ps ?a = prio_work ps s" by (rule prio_admit_work)
  have xin: "x \<in> set (prio_minHeap ?a)" using heapPop_set[OF pop] by auto
  have bx: "0 < BurstDuration x" "BurstDuration x < MaxInt64"
    using pa xin by (auto simp: prio_inv_def)
  have dec: "sub64 (BurstDuration x) 1 = BurstDuration x - 1"
    using bx by (simp add: sub64_def i64_id MaxInt64_def)
  have hs: "\<forall>p\<in>set h. 0 < BurstDuration p"
    using pa heapPop_set[OF pop] by (auto simp: prio_inv_def)
  have "0 \<le> sum_list (map BurstDuration h)"
    using hs by (intro sum_list_nonneg) auto
  moreover have "0 \<le> sum_list (map BurstDuration (drop (prio_insertedProcessIdx ?a) ps))"
    using b by (intro sum_list_nonneg) (auto simp: burst_ok_def dest!: in_set_dropD)
  ultimately have bw: "BurstDuration x \<le> prio_work ps ?a"
    using heapPop_sum[OF pop] by (simp add: prio_work_def)
  let ?t = "prio_currentTime ?a"
  have tb: "?t + BurstDuration x < MaxInt64" using bd bw by simp
  have inc: "add64 ?t 1 = ?t + 1"
    using t0 tb bx by (simp add: add64_def i64_id MaxInt64_def)
  have stop: "add64 (add64 ?t (BurstDuration x - 1)) 1 = ?t + BurstDuration x"
    using t0 tb bx by (simp add: add64_def i64_id MaxInt64_def)
  have g': "starts_ok (?t + 1) (prio_gantt s')"
  proof (cases "prio_gantt ?a = [] \<or> PID (last (prio_gantt ?a)) \<noteq> ProcessID x")
    case True
    have "?t < ?t + BurstDuration x" using bx by simp
    from starts_ok_open[OF ok True this] True show ?thesis
      unfolding s' prio_run_gantt dec stop by simp
  next
    case False
    with starts_ok_later[OF ok, of "?t + 1"] show ?thesis
      unfolding s' prio_run_gantt by simp
  qed
  have t': "prio_currentTime s' = ?t + 1" unfolding s' prio_run_time inc ..
  show ?thesis
    unfolding prio_clock_inv_def t' using inv' w' wa g' t0 bd by simp
qed

lemma prio_loop_n_inv:
  assumes b: "burst_ok ps"
  shows "prio_loop_n k ps m s = Some (Inr s') \<Longrightarrow> prio_clock_inv ps s \<Longrightarrow> prio_clock_inv ps s'"
proof (induction k arbitrary: s)
  case 0
  then show ?case by simp
next
  case (Suc k)
  show ?case
  proof (cases "prio_iter ps m s")
    case (Inl e)
    with Suc.prems show ?thesis by simp
  next
    case (Inr sr)
    obtain stop s1 where sr: "sr = (stop, s1)" by (cases sr)
    have i1: "prio_clock_inv ps s1"
      using prio_clock_inv_step[OF b Suc.prems(2)] Inr sr by simp
    show ?thesis
    proof (cases stop)
      case True
      with Inr sr Suc.prems(1) have "s' = s1" by simp
      with i1 show ?thesis by simp
    next
      case False
      with Inr sr Suc.prems(1) have "prio_loop_n k ps m s1 = Some (Inr s')" by simp
      from Suc.IH[OF this i1] show ?thesis .
    qed
  qed
qed

lemma prio_clock_inv_init:
  assumes c: "clock_ok ps" and ne: "ps \<noteq> []"
  shows "prio_clock_inv ps (prio_init ps)"
proof -
  have "ps ! 0 \<in> set ps" using ne by simp
  then have "0 \<le> ArrivalTime (ps ! 0)"
    "ArrivalTime (ps ! 0) + sum_list (map BurstDuration ps) < MaxInt64"
    using c by (auto simp: clock_ok_def)
  then show ?thesis
    by (simp add: prio_clock_inv_def prio_inv_def prio_work_def prio_init_def starts_ok_def)
qed

lemma priority_run_timeline:
  assumes c: "clock_ok ps" and run: "PriorityRun ps = Some (Inr out)"
  shows "\<exists>t. starts_ok t (outGantt out)"
proof -
  have ne: "ps \<noteq> []" using run by (auto simp: PriorityRun_def)
  have bo: "burst_ok ps" by (rule clock_ok_burst_ok[OF c])
  let ?m = "processesMapIndex ps"
  have "prio_work ps (prio_init ps) < int (nat (sum_list (map BurstDuration ps)) + 1)"
    using prio_init_work[of ps] by simp
  from prio_loop_n_terminates[OF bo _ this, of ?m] prio_init_work[of ps]
  obtain r where r: "prio_loop_n (nat (sum_list (map BurstDuration ps)) + 1) ps ?m (prio_init ps) = Some r"
    by blast
  have l: "prio_loop ps ?m (prio_init ps) = Some r" by (rule prio_loop_n_loop[OF r])
  with run ne obtain s where rs: "r = Inr s" and out: "out = prio_output ps s"
    by (cases r) (auto simp: PriorityRun_def)
  from prio_loop_n_inv[OF bo r[unfolded rs] prio_clock_inv_init[OF c ne]]
  have "starts_ok (prio_currentTime s) (prio_gantt s)" by (simp add: prio_clock_inv_def)
  then show ?thesis using out by (auto simp: prio_output_def)
qed

lemma fcfs_body_gantt:
  assumes ok: "fcfs_ok s" and bp: "0 < BurstDuration p"
    and rng: "fcfs_serviceTime s + BurstDuration p < MaxInt64"
    and ar: "0 \<le> ArrivalTime p" "ArrivalTime p < MaxInt64"
    and w: "0 < ArrivalTime p \<or> fcfs_waitingTime s = fcfs_serviceTime s"
  shows "fcfs_ok (fcfs_body s p)
         \<and> fcfs_serviceTime (fcfs_body s p) = fcfs_serviceTime s + BurstDuration p"
proof -
  let ?st = "fcfs_serviceTime s"
  have st0: "0 \<le> ?st" using ok by (simp add: fcfs_ok_def)
  define wt where "wt = (if ArrivalTime p > 0 then sub64 ?st (ArrivalTime p) else fcfs_waitingTime s)"
  have start: "add64 wt (ArrivalTime p) = ?st"
  proof (cases "ArrivalTime p > 0")
    case True
    have "sub64 ?st (ArrivalTime p) = ?st - ArrivalTime p"
      using st0 rng bp ar True by (simp add: sub64_def i64_id MaxInt64_def)
    then show ?thesis
      using True st0 rng bp by (simp add: wt_def add64_def i64_id MaxInt64_def)
  next
    case False
    then have "ArrivalTime p = 0" "fcfs_waitingTime s = ?st" using ar w by auto
    then show ?thesis
      using st0 rng bp by (simp add: wt_def add64_def i64_id MaxInt64_def)
  qed
  have st': "add64 ?st (BurstDuration p) = ?st + BurstDuration p"
    using st0 rng bp by (simp add: add64_def i64_id MaxInt64_def)
  let ?n = "\<lparr> PID = ProcessID p, Start = ?st, Stop = ?st + BurstDuration p \<rparr>"
  have g: "fcfs_gantt (fcfs_body s p) = fcfs_gantt s @ [?n]"
    and sv: "fcfs_serviceTime (fcfs_body s p) = ?st + BurstDuration p"
    using start st' by (simp_all add: fcfs_body_def Let_def wt_def)
  have a: "\<forall>x\<in>set (fcfs_gantt s @ [?n]). Start x < Stop x"
    using ok bp by (auto simp: fcfs_ok_def)
  have c: "successively (\<lambda>x y. Stop x = Start y) (fcfs_gantt s @ [?n])"
    using ok by (auto simp: fcfs_ok_def successively_append_iff)
  show ?thesis
    unfolding fcfs_ok_def g sv using a c st0 bp by simp
qed

lemma fcfs_fold_gantt:
  "fcfs_ok s \<Longrightarrow>
   (\<forall>p\<in>set ps. 0 < ArrivalTime p \<and> ArrivalTime p < MaxInt64 \<and> 0 < BurstDuration p) \<Longrightarrow>
   fcfs_serviceTime s + sum_list (map BurstDuration ps) < MaxInt64 \<Longrightarrow>
   fcfs_ok (foldl fcfs_body s ps)"
proof (induction ps arbitrary: s)
  case Nil
  then show ?case by simp
next
  case (Cons p ps)
  have rest: "0 \<le> sum_list (map BurstDuration ps)"
    using Cons.prems(2) by (intro sum_list_nonneg) auto
  have "fcfs_ok (fcfs_body s p)
        \<and> fcfs_serviceTime (fcfs_body s p) = fcfs_serviceTime s + BurstDuration p"
    using Cons.prems rest by (intro fcfs_body_gantt) auto
  then show ?case using Cons.IH[of "fcfs_body s p"] Cons.prems by simp
qed

lemma fcfs_timeline:
  assumes c: "clock_ok ps" and late: "\<forall>p\<in>set (tl ps). 0 < ArrivalTime p"
  shows "fcfs_ok (fcfs_loop ps)"
proof (cases ps)
  case Nil
  then show ?thesis by (simp add: fcfs_loop_def fcfs_ok_def fcfs_init_def)
next
  case (Cons p ps')
  have pin: "p \<in> set ps" using Cons by simp
  have B: "sum_list (map BurstDuration ps) = BurstDuration p + sum_list (map BurstDuration ps')"
    using Cons by simp
  have rest: "0 \<le> sum_list (map BurstDuration ps')"
    using c Cons by (intro sum_list_nonneg) (auto simp: clock_ok_def)
  have cp: "0 \<le> ArrivalTime p" "0 < BurstDuration p"
    "ArrivalTime p + sum_list (map BurstDuration ps) < MaxInt64"
    using c pin by (auto simp: clock_ok_def)
  have i0: "fcfs_ok fcfs_init" by (simp add: fcfs_ok_def fcfs_init_def)
  have "fcfs_ok (fcfs_body fcfs_init p)
        \<and> fcfs_serviceTime (fcfs_body fcfs_init p) = fcfs_serviceTime fcfs_init + BurstDuration p"
    using cp B rest by (intro fcfs_body_gantt[OF i0]) (auto simp: fcfs_init_def)
  then have ok1: "fcfs_ok (fcfs_body fcfs_init p)"
    and st1: "fcfs_serviceTime (fcfs_body fcfs_init p) = BurstDuration p"
    by (auto simp: fcfs_init_def)
  have all: "\<forall>q\<in>set ps'. 0 < ArrivalTime q \<and> ArrivalTime q < MaxInt64 \<and> 0 < BurstDuration q"
  proof
    fix q assume q: "q \<in> set ps'"
    then have "q \<in> set ps" using Cons by simp
    then have "0 < BurstDuration q" "ArrivalTime q + sum_list (map BurstDuration ps) < MaxInt64"
      using c by (auto simp: clock_ok_def)
    moreover have "0 < sum_list (map BurstDuration ps)" using B rest cp by simp
    moreover have "0 < ArrivalTime q" using late q Cons by simp
    ultimately show "0 < ArrivalTime q \<and> ArrivalTime q < MaxInt64 \<and> 0 < BurstDuration q" by simp
  qed
  have "fcfs_serviceTime (fcfs_body fcfs_init p) + sum_list (map BurstDuration ps') < MaxInt64"
    using st1 B cp by simp
  from fcfs_fold_gantt[OF ok1 all this] show ?thesis
    by (simp add: fcfs_loop_def Cons)
qed

section \<open>The rows of FCFS and SJF are consistent, and SJF reports no negative wait\<close>

lemma i64_add_left: "i64 (i64 x + y) = i64 (x + y)"
proof -
  have "(((x + 9223372036854775808) mod 18446744073709551616 - 9223372036854775808 + y)
          + 9223372036854775808) mod 18446744073709551616
        = ((x + 9223372036854775808) mod 18446744073709551616 + y) mod 18446744073709551616"
    by (simp add: algebra_simps)
  also have "\<dots> = ((x + 9223372036854775808) + y) mod 18446744073709551616"
    by (rule mod_add_left_eq)
  finally show ?thesis by (simp add: i64_def algebra_simps)
qed

lemma i64_add_right: "i64 (x + i64 y) = i64 (x + y)"
  using i64_add_left[of y x] by (simp add: add.commute)

lemma add64_exit: "add64 (add64 b a) w = add64 a (add64 b w)"
  by (simp add: add64_def i64_add_left i64_add_right algebra_simps)

lemma fcfs_rows_consistent_aux:
  "(\<forall>r. Some r \<in> set (fcfs_schedule s) \<longrightarrow> row_consistent r) \<Longrightarrow>
   (\<forall>r. Some r \<in> set (fcfs_schedule (foldl fcfs_body s ps)) \<longrightarrow> row_consistent r)"
proof (induction ps arbitrary: s)
  case Nil
  then show ?case by simp
next
  case (Cons p ps)
  have "\<forall>r. Some r \<in> set (fcfs_schedule (fcfs_body s p)) \<longrightarrow> row_consistent r"
    using Cons.prems by (auto simp: fcfs_body_def Let_def row_consistent_def add64_exit)
  from Cons.IH[OF this] show ?case by simp
qed

lemma fcfs_rows_consistent:
  "Some r \<in> set (outSchedule (snd (FCFSSchedule processes))) \<Longrightarrow> row_consistent r"
  using fcfs_rows_consistent_aux[of fcfs_init processes]
  by (simp add: FCFSSchedule_def fcfs_output_def fcfs_loop_def fcfs_init_def)

lemma sjf_loop_reachable:
  assumes run: "sjf_loop ps s = Some s'" and r: "sjf_reachable ps s"
  shows "sjf_reachable ps s'"
proof -
  have "ps = ps \<longrightarrow> sjf_reachable ps s \<longrightarrow> sjf_reachable ps s'"
  proof (rule sjf_loop.raw_induct[where P = "\<lambda>p s s'. p = ps \<longrightarrow> sjf_reachable ps s \<longrightarrow> sjf_reachable ps s'",
        OF _ run])
    fix f p s s'
    assume ih: "\<And>p s s'. f p s = Some s' \<Longrightarrow> p = ps \<longrightarrow> sjf_reachable ps s \<longrightarrow> sjf_reachable ps s'"
      and body: "(if sjf_numOfCompletedProcesses s < length p then f p (sjf_iter p s) else Some s) = Some s'"
    show "p = ps \<longrightarrow> sjf_reachable ps s \<longrightarrow> sjf_reachable ps s'"
    proof (intro impI)
      assume p: "p = ps" and r: "sjf_reachable ps s"
      show "sjf_reachable ps s'"
      proof (cases "sjf_numOfCompletedProcesses s < length ps")
        case True
        with body p have "f ps (sjf_iter ps s) = Some s'" by simp
        from ih[OF this] sjf_reachable.step[OF r True] show ?thesis by simp
      next
        case False
        with body p r show ?thesis by simp
      qed
    qed
  qed
  with r show ?thesis by simp
qed

lemma sjf_iter_rows:
  assumes "\<forall>r. Some r \<in> set (sjf_schedule s) \<longrightarrow> row_consistent r \<and> 0 \<le> rowWait r"
  shows "\<forall>r. Some r \<in> set (sjf_schedule (sjf_iter ps s)) \<longrightarrow> row_consistent r \<and> 0 \<le> rowWait r"
proof (intro allI impI)
  fix r assume r: "Some r \<in> set (sjf_schedule (sjf_iter ps s))"
  then have "Some r \<in> set (sjf_schedule s)
     \<or> (\<exists>w b a i q. 0 \<le> w \<and> r = \<lparr> rowID = i, rowPriority = q, rowBurst = b, rowArrival = a,
            rowWait = w, rowTurnaround = add64 w b, rowExit = add64 (add64 b a) w \<rparr>)"
    by (auto simp: sjf_iter_def sjf_complete_def Let_def split: if_splits dest!: set_update_subset_insert[THEN subsetD])
  then show "row_consistent r \<and> 0 \<le> rowWait r"
  proof
    assume "Some r \<in> set (sjf_schedule s)"
    with assms show ?thesis by blast
  next
    assume "\<exists>w b a i q. 0 \<le> w \<and> r = \<lparr> rowID = i, rowPriority = q, rowBurst = b, rowArrival = a,
            rowWait = w, rowTurnaround = add64 w b, rowExit = add64 (add64 b a) w \<rparr>"
    then show ?thesis
      by (auto simp: row_consistent_def add64_def i64_add_left i64_add_right algebra_simps)
  qed
qed

lemma sjf_reachable_rows:
  "sjf_reachable ps s \<Longrightarrow>
   \<forall>r. Some r \<in> set (sjf_schedule s) \<longrightarrow> row_consistent r \<and> 0 \<le> rowWait r"
proof (induction rule: sjf_reachable.induct)
  case init
  show ?case by (simp add: sjf_init_def)
next
  case (step s)
  from sjf_iter_rows[OF step.IH] show ?case .
qed

lemma sjf_rows_consistent:
  assumes "SJFRun processes = Some out" "Some r \<in> set (outSchedule out)"
  shows "row_consistent r \<and> 0 \<le> rowWait r"
proof -
  from assms(1) obtain s where s: "sjf_loop processes (sjf_init processes) = Some s"
    and out: "out = sjf_output processes s" by (auto simp: SJFRun_def)
  have "sjf_reachable processes s"
    by (rule sjf_loop_reachable[OF s sjf_reachable.init])
  from sjf_reachable_rows[OF this] assms(2) out show ?thesis
    by (simp add: sjf_output_def)
qed


section \<open>The wait time of FCFS\<close>

text \<open>
  What \<open>FCFSSchedule\<close> reports as the wait of the process that follows the processes
  \<open>ps\<close>: with a positive arrival time, the sum of the bursts of \<open>ps\<close> minus the arrival
  time, without a lower bound; otherwise the wait of the process before it (0 for the
  first process). Rows already written do not change.
\<close>

lemma fcfs_loop_snoc: "fcfs_loop (ps @ [p]) = fcfs_body (fcfs_loop ps) p"
  by (simp add: fcfs_loop_def)

lemma fcfs_body_schedule:
  "\<exists>r. fcfs_schedule (fcfs_body s p) = fcfs_schedule s @ [r]"
  by (simp add: fcfs_body_def Let_def)

lemma fcfs_schedule_prefix:
  "\<exists>rows. fcfs_schedule (foldl fcfs_body s ps) = fcfs_schedule s @ rows \<and> length rows = length ps"
proof (induction ps arbitrary: s)
  case Nil
  then show ?case by simp
next
  case (Cons p ps)
  from Cons.IH[of "fcfs_body s p"] obtain rows where
    rows: "fcfs_schedule (foldl fcfs_body (fcfs_body s p) ps) = fcfs_schedule (fcfs_body s p) @ rows"
    "length rows = length ps" by blast
  from fcfs_body_schedule[of s p] obtain r where
    r: "fcfs_schedule (fcfs_body s p) = fcfs_schedule s @ [r]" by blast
  have "fcfs_schedule (foldl fcfs_body s (p # ps)) = fcfs_schedule s @ (r # rows)"
    using rows(1) r by simp
  moreover have "length (r # rows) = length (p # ps)" using rows(2) by simp
  ultimately show ?case by blast
qed

lemma fcfs_rows_kept:
  "i < length ps \<Longrightarrow>
   fcfs_schedule (fcfs_loop (ps @ qs)) ! i = fcfs_schedule (fcfs_loop ps) ! i"
proof -
  assume i: "i < length ps"
  from fcfs_schedule_prefix[of fcfs_init ps] obtain r1 where
    r1: "fcfs_schedule (fcfs_loop ps) = r1" "length r1 = length ps"
    by (auto simp: fcfs_loop_def fcfs_init_def)
  from fcfs_schedule_prefix[of "fcfs_loop ps" qs] obtain r2 where
    "fcfs_schedule (fcfs_loop (ps @ qs)) = fcfs_schedule (fcfs_loop ps) @ r2"
    by (auto simp: fcfs_loop_def)
  then show ?thesis using r1 i by (simp add: nth_append)
qed

lemma fcfs_serviceTime_sum:
  "fcfs_serviceTime (fcfs_loop ps) = foldl add64 0 (map BurstDuration ps)"
proof (induction ps rule: rev_induct)
  case Nil
  then show ?case by (simp add: fcfs_loop_def fcfs_init_def)
next
  case (snoc p ps)
  then show ?case by (simp add: fcfs_loop_snoc fcfs_body_def Let_def)
qed

lemma fcfs_wait_rule:
  "fcfs_schedule (fcfs_loop (ps @ [p])) ! length ps = Some r \<Longrightarrow>
   rowWait r = (if ArrivalTime p > 0
                then sub64 (foldl add64 0 (map BurstDuration ps)) (ArrivalTime p)
                else fcfs_waitingTime (fcfs_loop ps))
   \<and> fcfs_waitingTime (fcfs_loop (ps @ [p])) = rowWait r"
proof -
  assume a: "fcfs_schedule (fcfs_loop (ps @ [p])) ! length ps = Some r"
  from fcfs_schedule_prefix[of fcfs_init ps]
  have len: "length (fcfs_schedule (fcfs_loop ps)) = length ps"
    by (auto simp: fcfs_loop_def fcfs_init_def)
  show ?thesis
    using a len fcfs_serviceTime_sum[of ps]
    by (auto simp: fcfs_loop_snoc fcfs_body_def Let_def nth_append)
qed

lemma fcfs_wait_first: "fcfs_waitingTime (fcfs_loop []) = 0"
  by (simp add: fcfs_loop_def fcfs_init_def)

section \<open>Runs on concrete batches\<close>

text \<open>
  C1. Claim: under FCFS, SJF and Priority every row has TurnaroundTime = BurstDuration +
  WaitTime and CompletionTime = ArrivalTime + TurnaroundTime. The Priority scheduler breaks
  it on the batch of the single process (id 1, burst 2, arrival 0, priority 0): the process
  runs from 0 to 2, and its row shows wait 2, turnaround 2 and exit 4, so turnaround is not
  burst + wait (4) and exit is not arrival + turnaround (2).
\<close>

theorem C1_priority_row_breaks_invariant:
  "SJFPrioritySchedule [\<lparr> ProcessID = 1, ArrivalTime = 0, BurstDuration = 2, Priority = 0 \<rparr>]
   = Some ([\<lparr> ProcessID = 1, ArrivalTime = 0, BurstDuration = 2, Priority = 0 \<rparr>],
       Inr \<lparr> outGantt = [\<lparr> PID = 1, Start = 0, Stop = 2 \<rparr>],
             outSchedule = [Some \<lparr> rowID = 1, rowPriority = 0, rowBurst = 2, rowArrival = 0,
                                   rowWait = 2, rowTurnaround = 2, rowExit = 4 \<rparr>],
             outCount = 1, outTotalWait = 2, outTotalTurnaround = 2, outLastCompletion = 4 \<rparr>)"
  by code_simp

text \<open>
  C2. Claim: when the heap is empty and processes are still to arrive, the Priority
  scheduler jumps to the next arrival and goes on normally, so that a run on a non-empty
  batch with positive bursts and non-negative arrivals never fails. On the batch
  (id 1, burst 1, arrival 0), (id 2, burst 1, arrival 5) the run panics: after process 1 has
  finished at time 1 the heap is empty, the clock is set to 5, and the same pass of the loop
  pops from the empty heap before process 2 has been pushed.
\<close>

theorem C2_priority_panics_on_idle_gap:
  "SJFPrioritySchedule [\<lparr> ProcessID = 1, ArrivalTime = 0, BurstDuration = 1, Priority = 0 \<rparr>,
                        \<lparr> ProcessID = 2, ArrivalTime = 5, BurstDuration = 1, Priority = 0 \<rparr>]
   = Some ([\<lparr> ProcessID = 1, ArrivalTime = 0, BurstDuration = 1, Priority = 0 \<rparr>,
            \<lparr> ProcessID = 2, ArrivalTime = 5, BurstDuration = 1, Priority = 0 \<rparr>],
           Inl IndexOutOfRange)"
  by code_simp

text \<open>
  C3. Claim: the reported WaitTime is never negative, under every policy. For the single
  process (id 1, burst 3, arrival 5) FCFS reports the wait -5 and Priority the wait -2;
  SJF, which clamps, reports 0.
\<close>

theorem C3_negative_wait:
  "snd (FCFSSchedule [\<lparr> ProcessID = 1, ArrivalTime = 5, BurstDuration = 3, Priority = 0 \<rparr>])
   = \<lparr> outGantt = [\<lparr> PID = 1, Start = 0, Stop = 3 \<rparr>],
       outSchedule = [Some \<lparr> rowID = 1, rowPriority = 0, rowBurst = 3, rowArrival = 5,
                             rowWait = - 5, rowTurnaround = - 2, rowExit = 3 \<rparr>],
       outCount = 1, outTotalWait = - 5, outTotalTurnaround = - 2, outLastCompletion = 3 \<rparr>
   \<and> map_option snd (SJFPrioritySchedule
         [\<lparr> ProcessID = 1, ArrivalTime = 5, BurstDuration = 3, Priority = 0 \<rparr>])
   = Some (Inr \<lparr> outGantt = [\<lparr> PID = 1, Start = 5, Stop = 8 \<rparr>],
       outSchedule = [Some \<lparr> rowID = 1, rowPriority = 0, rowBurst = 3, rowArrival = 5,
                             rowWait = - 2, rowTurnaround = 3, rowExit = 6 \<rparr>],
       outCount = 1, outTotalWait = - 2, outTotalTurnaround = 3, outLastCompletion = 8 \<rparr>)
   \<and> map_option snd (SJFSchedule
         [\<lparr> ProcessID = 1, ArrivalTime = 5, BurstDuration = 3, Priority = 0 \<rparr>])
   = Some \<lparr> outGantt = [\<lparr> PID = 1, Start = 5, Stop = 8 \<rparr>],
       outSchedule = [Some \<lparr> rowID = 1, rowPriority = 0, rowBurst = 3, rowArrival = 5,
                             rowWait = 0, rowTurnaround = 3, rowExit = 8 \<rparr>],
       outCount = 1, outTotalWait = 0, outTotalTurnaround = 3, outLastCompletion = 8 \<rparr>"
  by code_simp

text \<open>
  C4. Claim: in FCFS a process with ArrivalTime > 0 waits max(0, serviceTime - arrivalTime),
  and a process with ArrivalTime = 0 keeps the wait of the iteration before. On the batch
  (id 1, burst 2, arrival 0), (id 2, burst 1, arrival 10) the second process meets
  serviceTime = 2 and arrival 10; its reported wait is -8, not max(0, 2 - 10) = 0.
\<close>

theorem C4_fcfs_wait_not_clamped:
  "snd (FCFSSchedule [\<lparr> ProcessID = 1, ArrivalTime = 0, BurstDuration = 2, Priority = 0 \<rparr>,
                      \<lparr> ProcessID = 2, ArrivalTime = 10, BurstDuration = 1, Priority = 0 \<rparr>])
   = \<lparr> outGantt = [\<lparr> PID = 1, Start = 0, Stop = 2 \<rparr>, \<lparr> PID = 2, Start = 2, Stop = 3 \<rparr>],
       outSchedule = [Some \<lparr> rowID = 1, rowPriority = 0, rowBurst = 2, rowArrival = 0,
                             rowWait = 0, rowTurnaround = 2, rowExit = 2 \<rparr>,
                      Some \<lparr> rowID = 2, rowPriority = 0, rowBurst = 1, rowArrival = 10,
                             rowWait = - 8, rowTurnaround = - 7, rowExit = 3 \<rparr>],
       outCount = 2, outTotalWait = - 8, outTotalTurnaround = - 5, outLastCompletion = 3 \<rparr>"
  by code_simp

text \<open>
  C5. Claim: on the batch (id 1, burst 4, priority 2, arrival 0), (id 2, burst 2, priority 1,
  arrival 0) the Priority scheduler runs process 2 alone until it completes and reports the
  CompletionTime 2 for it and 6 for process 1. The timeline is as claimed (process 2 from 0
  to 2, process 1 from 2 to 6), but the reported completion times are 4 and 10.
\<close>

theorem C5_priority_example:
  "SJFPrioritySchedule [\<lparr> ProcessID = 1, ArrivalTime = 0, BurstDuration = 4, Priority = 2 \<rparr>,
                        \<lparr> ProcessID = 2, ArrivalTime = 0, BurstDuration = 2, Priority = 1 \<rparr>]
   = Some ([\<lparr> ProcessID = 1, ArrivalTime = 0, BurstDuration = 4, Priority = 2 \<rparr>,
            \<lparr> ProcessID = 2, ArrivalTime = 0, BurstDuration = 2, Priority = 1 \<rparr>],
       Inr \<lparr> outGantt = [\<lparr> PID = 2, Start = 0, Stop = 2 \<rparr>, \<lparr> PID = 1, Start = 2, Stop = 6 \<rparr>],
             outSchedule = [Some \<lparr> rowID = 1, rowPriority = 2, rowBurst = 4, rowArrival = 0,
                                   rowWait = 6, rowTurnaround = 6, rowExit = 10 \<rparr>,
                            Some \<lparr> rowID = 2, rowPriority = 1, rowBurst = 2, rowArrival = 0,
                                   rowWait = 2, rowTurnaround = 2, rowExit = 4 \<rparr>],
             outCount = 2, outTotalWait = 8, outTotalTurnaround = 8, outLastCompletion = 10 \<rparr>)"
  by code_simp

text \<open>
  C8. Claim: for a non-empty batch with positive bursts the reported throughput is the
  process count divided by the time of the last completion across all processes. On the
  batch (id 1, burst 5, arrival 0), (id 2, burst 2, arrival 0) FCFS divides the count 2 by 2,
  the completion time it reports for the process that comes last in the input, although
  process 1 is reported to complete at 5 and the timeline ends at 7; SJF divides by 7 on
  the same batch. On the batch (id 1, burst 3, priority 1, arrival 0), (id 2, burst 1,
  priority 2, arrival 0) Priority divides by 6, although the last process completes at 4.
\<close>

theorem C8_throughput_divisor:
  "snd (FCFSSchedule [\<lparr> ProcessID = 1, ArrivalTime = 0, BurstDuration = 5, Priority = 0 \<rparr>,
                      \<lparr> ProcessID = 2, ArrivalTime = 0, BurstDuration = 2, Priority = 0 \<rparr>])
   = \<lparr> outGantt = [\<lparr> PID = 1, Start = 0, Stop = 5 \<rparr>, \<lparr> PID = 2, Start = 0, Stop = 7 \<rparr>],
       outSchedule = [Some \<lparr> rowID = 1, rowPriority = 0, rowBurst = 5, rowArrival = 0,
                             rowWait = 0, rowTurnaround = 5, rowExit = 5 \<rparr>,
                      Some \<lparr> rowID = 2, rowPriority = 0, rowBurst = 2, rowArrival = 0,
                             rowWait = 0, rowTurnaround = 2, rowExit = 2 \<rparr>],
       outCount = 2, outTotalWait = 0, outTotalTurnaround = 7, outLastCompletion = 2 \<rparr>
   \<and> map_option snd (SJFSchedule
        [\<lparr> ProcessID = 1, ArrivalTime = 0, BurstDuration = 5, Priority = 0 \<rparr>,
         \<lparr> ProcessID = 2, ArrivalTime = 0, BurstDuration = 2, Priority = 0 \<rparr>])
   = Some \<lparr> outGantt = [\<lparr> PID = 2, Start = 0, Stop = 2 \<rparr>, \<lparr> PID = 1, Start = 2, Stop = 7 \<rparr>],
       outSchedule = [Some \<lparr> rowID = 1, rowPriority = 0, rowBurst = 5, rowArrival = 0,
                             rowWait = 2, rowTurnaround = 7, rowExit = 7 \<rparr>,
                      Some \<lparr> rowID = 2, rowPriority = 0, rowBurst = 2, rowArrival = 0,
                             rowWait = 0, rowTurnaround = 2, rowExit = 2 \<rparr>],
       outCount = 2, outTotalWait = 2, outTotalTurnaround = 9, outLastCompletion = 7 \<rparr>
   \<and> map_option snd (SJFPrioritySchedule
        [\<lparr> ProcessID = 1, ArrivalTime = 0, BurstDuration = 3, Priority = 1 \<rparr>,
         \<lparr> ProcessID = 2, ArrivalTime = 0, BurstDuration = 1, Priority = 2 \<rparr>])
   = Some (Inr \<lparr> outGantt = [\<lparr> PID = 1, Start = 0, Stop = 3 \<rparr>, \<lparr> PID = 2, Start = 3, Stop = 4 \<rparr>],
       outSchedule = [Some \<lparr> rowID = 1, rowPriority = 1, rowBurst = 3, rowArrival = 0,
                             rowWait = 3, rowTurnaround = 3, rowExit = 6 \<rparr>,
                      Some \<lparr> rowID = 2, rowPriority = 2, rowBurst = 1, rowArrival = 0,
                             rowWait = 4, rowTurnaround = 4, rowExit = 5 \<rparr>],
       outCount = 2, outTotalWait = 7, outTotalTurnaround = 7, outLastCompletion = 6 \<rparr>)"
  by code_simp

text \<open>
  C9. \<open>SJFSchedule\<close> and \<open>SJFPrioritySchedule\<close> leave the caller's slice reordered: it
  holds the same processes, sorted ascending by ArrivalTime, whatever the simulation that
  follows does. \<open>FCFSSchedule\<close> leaves the slice as it was.
\<close>

theorem C9_batch_reordered_in_place:
  "fst (FCFSSchedule processes) = processes
   \<and> (\<forall>r. SJFSchedule processes = Some r \<longrightarrow> fst r = sortSlice processes)
   \<and> (\<forall>r. SJFPrioritySchedule processes = Some r \<longrightarrow> fst r = sortSlice processes)
   \<and> mset (sortSlice processes) = mset processes
   \<and> sorted (map ArrivalTime (sortSlice processes))"
  by (auto simp: FCFSSchedule_def SJFSchedule_def SJFPrioritySchedule_def sorted_sortSlice)

theorem C9_batch_reordered_witness:
  "fst (FCFSSchedule [\<lparr> ProcessID = 1, ArrivalTime = 3, BurstDuration = 1, Priority = 0 \<rparr>,
                      \<lparr> ProcessID = 2, ArrivalTime = 1, BurstDuration = 1, Priority = 0 \<rparr>])
     = [\<lparr> ProcessID = 1, ArrivalTime = 3, BurstDuration = 1, Priority = 0 \<rparr>,
        \<lparr> ProcessID = 2, ArrivalTime = 1, BurstDuration = 1, Priority = 0 \<rparr>]
   \<and> map_option fst (SJFSchedule
         [\<lparr> ProcessID = 1, ArrivalTime = 3, BurstDuration = 1, Priority = 0 \<rparr>,
          \<lparr> ProcessID = 2, ArrivalTime = 1, BurstDuration = 1, Priority = 0 \<rparr>])
     = Some [\<lparr> ProcessID = 2, ArrivalTime = 1, BurstDuration = 1, Priority = 0 \<rparr>,
             \<lparr> ProcessID = 1, ArrivalTime = 3, BurstDuration = 1, Priority = 0 \<rparr>]
   \<and> map_option fst (SJFPrioritySchedule
         [\<lparr> ProcessID = 1, ArrivalTime = 3, BurstDuration = 1, Priority = 0 \<rparr>,
          \<lparr> ProcessID = 2, ArrivalTime = 1, BurstDuration = 1, Priority = 0 \<rparr>])
     = Some [\<lparr> ProcessID = 2, ArrivalTime = 1, BurstDuration = 1, Priority = 0 \<rparr>,
             \<lparr> ProcessID = 1, ArrivalTime = 3, BurstDuration = 1, Priority = 0 \<rparr>]"
proof -
  let ?b = "[\<lparr> ProcessID = 1, ArrivalTime = 3, BurstDuration = 1, Priority = 0 \<rparr>,
             \<lparr> ProcessID = 2, ArrivalTime = 1, BurstDuration = 1, Priority = 0 \<rparr>]"
  have srt: "sortSlice ?b = [\<lparr> ProcessID = 2, ArrivalTime = 1, BurstDuration = 1, Priority = 0 \<rparr>,
                             \<lparr> ProcessID = 1, ArrivalTime = 3, BurstDuration = 1, Priority = 0 \<rparr>]"
    by code_simp
  have sjf: "SJFSchedule ?b \<noteq> None" by code_simp
  have prio: "SJFPrioritySchedule ?b \<noteq> None" by code_simp
  from sjf obtain r1 where r1: "SJFSchedule ?b = Some r1" by blast
  from prio obtain r2 where r2: "SJFPrioritySchedule ?b = Some r2" by blast
  note inst = C9_batch_reordered_in_place [of ?b]
  from inst have "fst (FCFSSchedule ?b) = ?b" by blast
  moreover from inst r1 have "fst r1 = sortSlice ?b" by blast
  moreover from inst r2 have "fst r2 = sortSlice ?b" by blast
  ultimately show ?thesis using r1 r2 srt by simp
qed

section \<open>The choice of the process to run in SJF\<close>

text \<open>
  C6. On a batch sorted ascending by ArrivalTime, with ArrivalTime >= 0 and
  BurstDuration > 0 for every process and a clock that stays below \<open>MaxInt64\<close> (ArrivalTime
  + the sum of all burst durations < \<open>MaxInt64\<close>), every pass through the loop of
  \<open>SJFSchedule\<close> does one of two things. If some process is eligible (arrived, with
  remaining time > 0), the process run has the least remaining time among the eligible
  ones and the lowest index among those with that remaining time; its remaining time
  drops by one and the clock advances by one. If no process is eligible, the clock is set
  to the ArrivalTime of the first process in array order that is not completed, and
  nothing else changes: no remaining time, no slice, no completion.
\<close>

theorem C6_sjf_selection:
  assumes srt: "sorted (map ArrivalTime processes)"
    and c: "\<forall>p\<in>set processes. 0 \<le> ArrivalTime p \<and> 0 < BurstDuration p
              \<and> ArrivalTime p + sum_list (map BurstDuration processes) < MaxInt64"
    and r: "sjf_reachable processes s"
    and lt: "sjf_numOfCompletedProcesses s < length processes"
  shows "((\<exists>i. sjf_eligible processes s i) \<longrightarrow>
            sjf_eligible processes s (sjf_currentIndex (sjf_iter processes s))
          \<and> (\<forall>j. sjf_eligible processes s j \<longrightarrow>
                 sjf_remainingTime s ! sjf_currentIndex (sjf_iter processes s)
                 \<le> sjf_remainingTime s ! j)
          \<and> (\<forall>j<sjf_currentIndex (sjf_iter processes s). sjf_eligible processes s j \<longrightarrow>
                 sjf_remainingTime s ! sjf_currentIndex (sjf_iter processes s)
                 < sjf_remainingTime s ! j)
          \<and> sjf_remainingTime (sjf_iter processes s)
              = (sjf_remainingTime s)[sjf_currentIndex (sjf_iter processes s) :=
                   sjf_remainingTime s ! sjf_currentIndex (sjf_iter processes s) - 1]
          \<and> sjf_currentTime (sjf_iter processes s) = sjf_currentTime s + 1)
       \<and> ((\<forall>i. \<not> sjf_eligible processes s i) \<longrightarrow>
            (\<exists>k<length processes.
                0 < sjf_remainingTime s ! k \<and> (\<forall>j<k. sjf_remainingTime s ! j = 0)
              \<and> sjf_currentTime (sjf_iter processes s) = ArrivalTime (processes ! k))
          \<and> sjf_remainingTime (sjf_iter processes s) = sjf_remainingTime s
          \<and> sjf_gantt (sjf_iter processes s) = sjf_gantt s
          \<and> sjf_numOfCompletedProcesses (sjf_iter processes s) = sjf_numOfCompletedProcesses s)"
proof -
  have ck: "clock_ok processes" using c by (simp add: clock_ok_def)
  have b: "burst_ok processes" by (rule clock_ok_burst_ok[OF ck])
  have inv: "sjf_inv processes s" by (rule sjf_reachable_inv[OF b r])
  have ci: "sjf_clock_inv processes s" by (rule sjf_reachable_clock_inv[OF ck srt r])
  note ec = sjf_eligible_candidate[OF b inv]
  let ?rem = "sjf_remainingTime s"
  let ?t = "sjf_currentTime s"
  obtain m k where sel: "sjf_select processes ?rem ?t (sjf_currentIndex s) = (m, k)"
    by (cases "sjf_select processes ?rem ?t (sjf_currentIndex s)") auto
  show ?thesis
  proof (cases "m = MaxInt64")
    case True
    with sjf_select_cases[OF sel]
    have none: "\<forall>j. \<not> sjf_candidate processes ?rem ?t j" by auto
    then have ne: "\<forall>i. \<not> sjf_eligible processes s i" using ec by simp
    from sjf_jump_target[OF ck srt inv ci lt none]
    have tgt: "0 < ?rem ! sjf_numOfCompletedProcesses s"
      "\<forall>j<sjf_numOfCompletedProcesses s. ?rem ! j = 0" by auto
    have "\<exists>k<length processes.
                0 < ?rem ! k \<and> (\<forall>j<k. ?rem ! j = 0)
              \<and> sjf_currentTime (sjf_iter processes s) = ArrivalTime (processes ! k)"
      unfolding sjf_iter_jump[OF sel True] using lt tgt by auto
    moreover have "sjf_remainingTime (sjf_iter processes s) = ?rem"
      "sjf_gantt (sjf_iter processes s) = sjf_gantt s"
      "sjf_numOfCompletedProcesses (sjf_iter processes s) = sjf_numOfCompletedProcesses s"
      unfolding sjf_iter_jump[OF sel True] by simp_all
    ultimately show ?thesis using ne by blast
  next
    case False
    from sjf_select_cases[OF sel] False
    have cand: "sjf_candidate processes ?rem ?t k"
      and mn: "\<forall>j. sjf_candidate processes ?rem ?t j \<longrightarrow> ?rem ! k \<le> ?rem ! j"
      and tie: "\<forall>j<k. sjf_candidate processes ?rem ?t j \<longrightarrow> ?rem ! k < ?rem ! j"
      by blast+
    from cand have kl: "k < length processes" and pos: "0 < ?rem ! k" and ltm: "?rem ! k < MaxInt64"
      by (auto simp: sjf_candidate_def)
    have dec: "sub64 (?rem ! k) 1 = ?rem ! k - 1"
      using pos ltm by (simp add: sub64_def i64_id MaxInt64_def)
    have t0: "0 \<le> ?t" and bd: "?t + sum_list ?rem < MaxInt64" using ci by (auto simp: sjf_clock_inv_def)
    have "?rem ! k \<le> sum_list ?rem" by (rule sjf_inv_nth_le_sum[OF inv kl])
    then have "?t + 1 < MaxInt64" using bd pos by simp
    then have inc: "add64 ?t 1 = ?t + 1"
      using t0 by (simp add: add64_def i64_id MaxInt64_def)
    have idx: "sjf_currentIndex (sjf_iter processes s) = k"
      by (rule sjf_iter_tick(3)[OF sel False])
    have some: "\<exists>i. sjf_eligible processes s i" using cand ec by blast
    have "sjf_eligible processes s k" using cand ec by simp
    moreover have "\<forall>j. sjf_eligible processes s j \<longrightarrow> ?rem ! k \<le> ?rem ! j" using mn ec by simp
    moreover have "\<forall>j<k. sjf_eligible processes s j \<longrightarrow> ?rem ! k < ?rem ! j" using tie ec by simp
    moreover have "sjf_remainingTime (sjf_iter processes s) = ?rem[k := ?rem ! k - 1]"
      using sjf_iter_tick(1)[OF sel False] dec by simp
    moreover have "sjf_currentTime (sjf_iter processes s) = ?t + 1"
      using sjf_iter_tick(2)[OF sel False] inc by simp
    ultimately show ?thesis unfolding idx using some by blast
  qed
qed

theorem C6_sjf_selection_witness:
  "sorted (map ArrivalTime [\<lparr> ProcessID = 1, ArrivalTime = 1, BurstDuration = 5, Priority = 0 \<rparr>,
       \<lparr> ProcessID = 2, ArrivalTime = 2, BurstDuration = 2, Priority = 0 \<rparr>])
   \<and> sjf_reachable [\<lparr> ProcessID = 1, ArrivalTime = 1, BurstDuration = 5, Priority = 0 \<rparr>,
       \<lparr> ProcessID = 2, ArrivalTime = 2, BurstDuration = 2, Priority = 0 \<rparr>] (sjf_init [\<lparr> ProcessID = 1, ArrivalTime = 1, BurstDuration = 5, Priority = 0 \<rparr>,
       \<lparr> ProcessID = 2, ArrivalTime = 2, BurstDuration = 2, Priority = 0 \<rparr>])
   \<and> sjf_reachable [\<lparr> ProcessID = 1, ArrivalTime = 1, BurstDuration = 5, Priority = 0 \<rparr>,
       \<lparr> ProcessID = 2, ArrivalTime = 2, BurstDuration = 2, Priority = 0 \<rparr>] (sjf_iter [\<lparr> ProcessID = 1, ArrivalTime = 1, BurstDuration = 5, Priority = 0 \<rparr>,
       \<lparr> ProcessID = 2, ArrivalTime = 2, BurstDuration = 2, Priority = 0 \<rparr>] (sjf_init [\<lparr> ProcessID = 1, ArrivalTime = 1, BurstDuration = 5, Priority = 0 \<rparr>,
       \<lparr> ProcessID = 2, ArrivalTime = 2, BurstDuration = 2, Priority = 0 \<rparr>]))
   \<and> (\<forall>i. \<not> sjf_eligible [\<lparr> ProcessID = 1, ArrivalTime = 1, BurstDuration = 5, Priority = 0 \<rparr>,
       \<lparr> ProcessID = 2, ArrivalTime = 2, BurstDuration = 2, Priority = 0 \<rparr>] (sjf_init [\<lparr> ProcessID = 1, ArrivalTime = 1, BurstDuration = 5, Priority = 0 \<rparr>,
       \<lparr> ProcessID = 2, ArrivalTime = 2, BurstDuration = 2, Priority = 0 \<rparr>]) i)
   \<and> sjf_currentTime (sjf_iter [\<lparr> ProcessID = 1, ArrivalTime = 1, BurstDuration = 5, Priority = 0 \<rparr>,
       \<lparr> ProcessID = 2, ArrivalTime = 2, BurstDuration = 2, Priority = 0 \<rparr>] (sjf_init [\<lparr> ProcessID = 1, ArrivalTime = 1, BurstDuration = 5, Priority = 0 \<rparr>,
       \<lparr> ProcessID = 2, ArrivalTime = 2, BurstDuration = 2, Priority = 0 \<rparr>])) = 1
   \<and> sjf_eligible [\<lparr> ProcessID = 1, ArrivalTime = 1, BurstDuration = 5, Priority = 0 \<rparr>,
       \<lparr> ProcessID = 2, ArrivalTime = 2, BurstDuration = 2, Priority = 0 \<rparr>] (sjf_iter [\<lparr> ProcessID = 1, ArrivalTime = 1, BurstDuration = 5, Priority = 0 \<rparr>,
       \<lparr> ProcessID = 2, ArrivalTime = 2, BurstDuration = 2, Priority = 0 \<rparr>] (sjf_init [\<lparr> ProcessID = 1, ArrivalTime = 1, BurstDuration = 5, Priority = 0 \<rparr>,
       \<lparr> ProcessID = 2, ArrivalTime = 2, BurstDuration = 2, Priority = 0 \<rparr>])) 0
   \<and> sjf_currentIndex (sjf_iter [\<lparr> ProcessID = 1, ArrivalTime = 1, BurstDuration = 5, Priority = 0 \<rparr>,
       \<lparr> ProcessID = 2, ArrivalTime = 2, BurstDuration = 2, Priority = 0 \<rparr>] (sjf_iter [\<lparr> ProcessID = 1, ArrivalTime = 1, BurstDuration = 5, Priority = 0 \<rparr>,
       \<lparr> ProcessID = 2, ArrivalTime = 2, BurstDuration = 2, Priority = 0 \<rparr>] (sjf_init [\<lparr> ProcessID = 1, ArrivalTime = 1, BurstDuration = 5, Priority = 0 \<rparr>,
       \<lparr> ProcessID = 2, ArrivalTime = 2, BurstDuration = 2, Priority = 0 \<rparr>]))) = 0
   \<and> sjf_remainingTime (sjf_iter [\<lparr> ProcessID = 1, ArrivalTime = 1, BurstDuration = 5, Priority = 0 \<rparr>,
       \<lparr> ProcessID = 2, ArrivalTime = 2, BurstDuration = 2, Priority = 0 \<rparr>] (sjf_iter [\<lparr> ProcessID = 1, ArrivalTime = 1, BurstDuration = 5, Priority = 0 \<rparr>,
       \<lparr> ProcessID = 2, ArrivalTime = 2, BurstDuration = 2, Priority = 0 \<rparr>] (sjf_init [\<lparr> ProcessID = 1, ArrivalTime = 1, BurstDuration = 5, Priority = 0 \<rparr>,
       \<lparr> ProcessID = 2, ArrivalTime = 2, BurstDuration = 2, Priority = 0 \<rparr>]))) = [4, 2]
   \<and> sjf_currentTime (sjf_iter [\<lparr> ProcessID = 1, ArrivalTime = 1, BurstDuration = 5, Priority = 0 \<rparr>,
       \<lparr> ProcessID = 2, ArrivalTime = 2, BurstDuration = 2, Priority = 0 \<rparr>] (sjf_iter [\<lparr> ProcessID = 1, ArrivalTime = 1, BurstDuration = 5, Priority = 0 \<rparr>,
       \<lparr> ProcessID = 2, ArrivalTime = 2, BurstDuration = 2, Priority = 0 \<rparr>] (sjf_init [\<lparr> ProcessID = 1, ArrivalTime = 1, BurstDuration = 5, Priority = 0 \<rparr>,
       \<lparr> ProcessID = 2, ArrivalTime = 2, BurstDuration = 2, Priority = 0 \<rparr>]))) = 2"
proof -
  let ?b = "[\<lparr> ProcessID = 1, ArrivalTime = 1, BurstDuration = 5, Priority = 0 \<rparr>,
       \<lparr> ProcessID = 2, ArrivalTime = 2, BurstDuration = 2, Priority = 0 \<rparr>]"
  let ?s0 = "sjf_init ?b"
  let ?s1 = "sjf_iter ?b ?s0"
  have h1: "sorted (map ArrivalTime ?b)" by simp
  have h2: "\<forall>p\<in>set ?b. 0 \<le> ArrivalTime p \<and> 0 < BurstDuration p
              \<and> ArrivalTime p + sum_list (map BurstDuration ?b) < MaxInt64"
    by (simp add: MaxInt64_def)
  have r0: "sjf_reachable ?b ?s0" by (rule sjf_reachable.init)
  have l0: "sjf_numOfCompletedProcesses ?s0 < length ?b" by (simp add: sjf_init_def)
  have r1: "sjf_reachable ?b ?s1" by (rule sjf_reachable.step[OF r0 l0])
  have l1: "sjf_numOfCompletedProcesses ?s1 < length ?b" by code_simp
  have n0: "\<forall>i. \<not> sjf_eligible ?b ?s0 i"
  proof
    fix i
    have "\<not> sjf_eligible ?b ?s0 0" "\<not> sjf_eligible ?b ?s0 1" by code_simp+
    then show "\<not> sjf_eligible ?b ?s0 i"
      by (cases "i = 0"; cases "i = 1") (auto simp: sjf_eligible_def)
  qed
  have e1: "sjf_eligible ?b ?s1 0" by code_simp
  have rem1: "sjf_remainingTime ?s1 = [5, 2]" and t1: "sjf_currentTime ?s1 = 1" by code_simp+
  have idx: "sjf_currentIndex (sjf_iter ?b ?s1) = 0" by code_simp
  from C6_sjf_selection[OF h1 h2 r0 l0] n0
  have j: "\<exists>k<length ?b. 0 < sjf_remainingTime ?s0 ! k \<and> (\<forall>j<k. sjf_remainingTime ?s0 ! j = 0)
             \<and> sjf_currentTime ?s1 = ArrivalTime (?b ! k)"
    by blast
  from C6_sjf_selection[OF h1 h2 r1 l1] e1
  have "sjf_remainingTime (sjf_iter ?b ?s1)
          = (sjf_remainingTime ?s1)[sjf_currentIndex (sjf_iter ?b ?s1) :=
               sjf_remainingTime ?s1 ! sjf_currentIndex (sjf_iter ?b ?s1) - 1]"
    and "sjf_currentTime (sjf_iter ?b ?s1) = sjf_currentTime ?s1 + 1"
    by blast+
  then have "sjf_remainingTime (sjf_iter ?b ?s1) = [4, 2]" "sjf_currentTime (sjf_iter ?b ?s1) = 2"
    by (simp_all add: idx rem1 t1)
  with h1 r0 r1 n0 t1 e1 idx show ?thesis by blast
qed

text \<open>
  Without the bound on the burst durations the property fails: a process whose burst is
  \<open>MaxInt64\<close> is eligible and is never run, because the search starts from
  \<open>minRemainTime = MaxInt64\<close> and takes only a smaller remaining time. The pass leaves the
  state as it was.
\<close>

theorem C6_counterexample:
  "sjf_reachable [\<lparr> ProcessID = 1, ArrivalTime = 0, BurstDuration = 9223372036854775807, Priority = 0 \<rparr>] (sjf_init [\<lparr> ProcessID = 1, ArrivalTime = 0, BurstDuration = 9223372036854775807, Priority = 0 \<rparr>])
   \<and> sjf_numOfCompletedProcesses (sjf_init [\<lparr> ProcessID = 1, ArrivalTime = 0, BurstDuration = 9223372036854775807, Priority = 0 \<rparr>]) < length [\<lparr> ProcessID = 1, ArrivalTime = 0, BurstDuration = 9223372036854775807, Priority = 0 \<rparr>]
   \<and> sjf_eligible [\<lparr> ProcessID = 1, ArrivalTime = 0, BurstDuration = 9223372036854775807, Priority = 0 \<rparr>] (sjf_init [\<lparr> ProcessID = 1, ArrivalTime = 0, BurstDuration = 9223372036854775807, Priority = 0 \<rparr>]) 0
   \<and> sjf_iter [\<lparr> ProcessID = 1, ArrivalTime = 0, BurstDuration = 9223372036854775807, Priority = 0 \<rparr>] (sjf_init [\<lparr> ProcessID = 1, ArrivalTime = 0, BurstDuration = 9223372036854775807, Priority = 0 \<rparr>]) = sjf_init [\<lparr> ProcessID = 1, ArrivalTime = 0, BurstDuration = 9223372036854775807, Priority = 0 \<rparr>]"
proof -
  have "sjf_reachable [\<lparr> ProcessID = 1, ArrivalTime = 0, BurstDuration = 9223372036854775807, Priority = 0 \<rparr>] (sjf_init [\<lparr> ProcessID = 1, ArrivalTime = 0, BurstDuration = 9223372036854775807, Priority = 0 \<rparr>])" by (rule sjf_reachable.init)
  moreover have "sjf_numOfCompletedProcesses (sjf_init [\<lparr> ProcessID = 1, ArrivalTime = 0, BurstDuration = 9223372036854775807, Priority = 0 \<rparr>]) < length [\<lparr> ProcessID = 1, ArrivalTime = 0, BurstDuration = 9223372036854775807, Priority = 0 \<rparr>]"
    by (simp add: sjf_init_def)
  moreover have "sjf_eligible [\<lparr> ProcessID = 1, ArrivalTime = 0, BurstDuration = 9223372036854775807, Priority = 0 \<rparr>] (sjf_init [\<lparr> ProcessID = 1, ArrivalTime = 0, BurstDuration = 9223372036854775807, Priority = 0 \<rparr>]) 0" by code_simp
  moreover have "sjf_iter [\<lparr> ProcessID = 1, ArrivalTime = 0, BurstDuration = 9223372036854775807, Priority = 0 \<rparr>] (sjf_init [\<lparr> ProcessID = 1, ArrivalTime = 0, BurstDuration = 9223372036854775807, Priority = 0 \<rparr>]) = sjf_init [\<lparr> ProcessID = 1, ArrivalTime = 0, BurstDuration = 9223372036854775807, Priority = 0 \<rparr>]" by code_simp
  ultimately show ?thesis by blast
qed

section \<open>Termination of the four runs\<close>

text \<open>
  C10. For every batch in which each process has 0 < BurstDuration < \<open>MaxInt64\<close>,
  with B the sum of the burst durations: FCFS makes one pass per process and Round-Robin
  does no scheduling work at all; the loop of SJF ends after at most 2 * B passes (every
  pass consumes one unit of burst or is a jump, and a jump is followed by a pass that
  consumes one), so \<open>SJFSchedule\<close> returns; the loop of Priority stops after at most B + 1
  passes (every pass but the last consumes one unit of burst), so \<open>SJFPrioritySchedule\<close>
  stops as well.
\<close>

theorem C10_runs_terminate:
  assumes b: "\<forall>p\<in>set processes. 0 < BurstDuration p \<and> BurstDuration p < MaxInt64"
  shows "length (outGantt (snd (FCFSSchedule processes))) = length processes
    \<and> snd (RRSchedule processes) = None
    \<and> (\<exists>s. sjf_loop_n (2 * nat (sum_list (map BurstDuration processes)))
               (sortSlice processes) (sjf_init (sortSlice processes)) = Some s
           \<and> SJFSchedule processes
               = Some (sortSlice processes, sjf_output (sortSlice processes) s))
    \<and> (\<exists>r. SJFPrioritySchedule processes = Some (sortSlice processes, r))
    \<and> (processes \<noteq> [] \<longrightarrow>
         (\<exists>r. prio_loop_n (nat (sum_list (map BurstDuration processes)) + 1)
                 (sortSlice processes) (processesMapIndex (sortSlice processes))
                 (prio_init (sortSlice processes)) = Some r))"
proof -
  let ?ps = "sortSlice processes"
  let ?B = "sum_list (map BurstDuration processes)"
  have bo: "burst_ok ?ps" using b by (simp add: burst_ok_def)
  have srt: "sorted (map ArrivalTime ?ps)" by (rule sorted_sortSlice)
  have B: "sum_list (map BurstDuration ?ps) = ?B"
    by (rule sum_list_map_mset) simp
  have fcfs: "length (outGantt (snd (FCFSSchedule processes))) = length processes"
    by (simp add: FCFSSchedule_def fcfs_output_def fcfs_loop_def fcfs_gantt_length fcfs_init_def)
  have rr: "snd (RRSchedule processes) = None" by (simp add: RRSchedule_def)
  have "sjf_fuel ?ps (sjf_init ?ps) \<le> 2 * nat ?B" using sjf_fuel_init[of ?ps] B by simp
  from sjf_loop_n_terminates[OF bo srt sjf_inv_init[OF bo] this]
  obtain s where s: "sjf_loop_n (2 * nat ?B) ?ps (sjf_init ?ps) = Some s" by blast
  have "SJFSchedule processes = Some (?ps, sjf_output ?ps s)"
    using sjf_loop_n_loop[OF s] by (simp add: SJFSchedule_def SJFRun_def)
  with s have sjf: "\<exists>s. sjf_loop_n (2 * nat ?B) ?ps (sjf_init ?ps) = Some s
           \<and> SJFSchedule processes = Some (?ps, sjf_output ?ps s)" by blast
  have "prio_work ?ps (prio_init ?ps) < int (nat ?B + 1)"
    using prio_init_work[of ?ps] B by simp
  from prio_loop_n_terminates[OF bo _ this, of "processesMapIndex ?ps"] prio_init_work[of ?ps]
  obtain r where r: "prio_loop_n (nat ?B + 1) ?ps (processesMapIndex ?ps) (prio_init ?ps) = Some r"
    by blast
  have prio: "\<exists>r. SJFPrioritySchedule processes = Some (?ps, r)"
    using prio_loop_n_loop[OF r] by (simp add: SJFPrioritySchedule_def PriorityRun_def)
  show ?thesis using fcfs rr sjf prio r by blast
qed

theorem C10_runs_terminate_witness:
  "length (outGantt (snd (FCFSSchedule [\<lparr> ProcessID = 1, ArrivalTime = 0, BurstDuration = 2, Priority = 0 \<rparr>,
       \<lparr> ProcessID = 2, ArrivalTime = 10, BurstDuration = 1, Priority = 0 \<rparr>]))) = 2
   \<and> SJFSchedule [\<lparr> ProcessID = 1, ArrivalTime = 0, BurstDuration = 2, Priority = 0 \<rparr>,
       \<lparr> ProcessID = 2, ArrivalTime = 10, BurstDuration = 1, Priority = 0 \<rparr>] \<noteq> None
   \<and> sjf_loop_n 6 (sortSlice [\<lparr> ProcessID = 1, ArrivalTime = 0, BurstDuration = 2, Priority = 0 \<rparr>,
       \<lparr> ProcessID = 2, ArrivalTime = 10, BurstDuration = 1, Priority = 0 \<rparr>]) (sjf_init (sortSlice [\<lparr> ProcessID = 1, ArrivalTime = 0, BurstDuration = 2, Priority = 0 \<rparr>,
       \<lparr> ProcessID = 2, ArrivalTime = 10, BurstDuration = 1, Priority = 0 \<rparr>])) \<noteq> None
   \<and> SJFPrioritySchedule [\<lparr> ProcessID = 1, ArrivalTime = 0, BurstDuration = 2, Priority = 0 \<rparr>,
       \<lparr> ProcessID = 2, ArrivalTime = 10, BurstDuration = 1, Priority = 0 \<rparr>] \<noteq> None
   \<and> prio_loop_n 4 (sortSlice [\<lparr> ProcessID = 1, ArrivalTime = 0, BurstDuration = 2, Priority = 0 \<rparr>,
       \<lparr> ProcessID = 2, ArrivalTime = 10, BurstDuration = 1, Priority = 0 \<rparr>]) (processesMapIndex (sortSlice [\<lparr> ProcessID = 1, ArrivalTime = 0, BurstDuration = 2, Priority = 0 \<rparr>,
       \<lparr> ProcessID = 2, ArrivalTime = 10, BurstDuration = 1, Priority = 0 \<rparr>]))
         (prio_init (sortSlice [\<lparr> ProcessID = 1, ArrivalTime = 0, BurstDuration = 2, Priority = 0 \<rparr>,
       \<lparr> ProcessID = 2, ArrivalTime = 10, BurstDuration = 1, Priority = 0 \<rparr>])) \<noteq> None"
proof -
  have h: "\<forall>p\<in>set [\<lparr> ProcessID = 1, ArrivalTime = 0, BurstDuration = 2, Priority = 0 \<rparr>,
       \<lparr> ProcessID = 2, ArrivalTime = 10, BurstDuration = 1, Priority = 0 \<rparr>]. 0 < BurstDuration p \<and> BurstDuration p < MaxInt64"
    by (simp add: MaxInt64_def)
  have ne: "[\<lparr> ProcessID = 1, ArrivalTime = 0, BurstDuration = 2, Priority = 0 \<rparr>,
       \<lparr> ProcessID = 2, ArrivalTime = 10, BurstDuration = 1, Priority = 0 \<rparr>] \<noteq> []" by simp
  from C10_runs_terminate[OF h] ne show ?thesis by auto
qed

text \<open>
  ArrivalTime >= 0 and BurstDuration > 0 alone do not suffice: on the batch of one process
  with burst \<open>MaxInt64\<close> and arrival 0 the loop of \<open>SJFSchedule\<close> never ends. The process
  is never picked, and every pass sets the clock to its arrival time again.
\<close>

theorem C10_counterexample:
  "SJFSchedule [\<lparr> ProcessID = 1, ArrivalTime = 0, BurstDuration = 9223372036854775807, Priority = 0 \<rparr>] = None"
proof -
  have srt: "sortSlice [\<lparr> ProcessID = 1, ArrivalTime = 0, BurstDuration = 9223372036854775807, Priority = 0 \<rparr>] = [\<lparr> ProcessID = 1, ArrivalTime = 0, BurstDuration = 9223372036854775807, Priority = 0 \<rparr>]" by code_simp
  have g: "sjf_numOfCompletedProcesses (sjf_init [\<lparr> ProcessID = 1, ArrivalTime = 0, BurstDuration = 9223372036854775807, Priority = 0 \<rparr>]) < length [\<lparr> ProcessID = 1, ArrivalTime = 0, BurstDuration = 9223372036854775807, Priority = 0 \<rparr>]"
    by (simp add: sjf_init_def)
  have fp: "sjf_iter [\<lparr> ProcessID = 1, ArrivalTime = 0, BurstDuration = 9223372036854775807, Priority = 0 \<rparr>] (sjf_init [\<lparr> ProcessID = 1, ArrivalTime = 0, BurstDuration = 9223372036854775807, Priority = 0 \<rparr>]) = sjf_init [\<lparr> ProcessID = 1, ArrivalTime = 0, BurstDuration = 9223372036854775807, Priority = 0 \<rparr>]" by code_simp
  show ?thesis
    unfolding SJFSchedule_def SJFRun_def srt using sjf_loop_stuck[OF g fp] by simp
qed

section \<open>The Gantt timeline\<close>

text \<open>
  C7. Take a batch sorted by ArrivalTime with ArrivalTime >= 0 and BurstDuration
  > 0 for every process and a clock that stays below \<open>MaxInt64\<close>. In the timelines of SJF
  and of Priority the Start values increase strictly and adjacent slices have different
  PIDs: a slice is opened when the CPU passes to another process, and it lasts until the
  Start of the next slice. Stop is not the end of that interval in general. SJF writes it
  only when the process of the slice completes in it, and then Start < Stop <= the Start of
  the next slice; otherwise Stop stays 0. Priority sets it, when the slice is opened, to
  the time at which the process would complete if it kept the CPU, so Start < Stop. In
  FCFS, if every process after the first has ArrivalTime > 0, Start < Stop holds for
  every slice and every slice starts where the one before it stops.
\<close>

theorem C7_timeline:
  assumes c: "\<forall>p\<in>set processes. 0 \<le> ArrivalTime p \<and> 0 < BurstDuration p
              \<and> ArrivalTime p + sum_list (map BurstDuration processes) < MaxInt64"
    and srt: "sorted (map ArrivalTime processes)"
  shows "(\<forall>out. SJFRun processes = Some out \<longrightarrow>
            sorted_wrt (<) (map Start (outGantt out))
          \<and> distinct_adj (map PID (outGantt out))
          \<and> (\<forall>x\<in>set (outGantt out). Stop x = 0 \<or> Start x < Stop x)
          \<and> successively (\<lambda>x y. Stop x = 0 \<or> Stop x \<le> Start y) (outGantt out))
       \<and> (\<forall>out. PriorityRun processes = Some (Inr out) \<longrightarrow>
            sorted_wrt (<) (map Start (outGantt out))
          \<and> distinct_adj (map PID (outGantt out))
          \<and> (\<forall>x\<in>set (outGantt out). Start x < Stop x))
       \<and> ((\<forall>p\<in>set (tl processes). 0 < ArrivalTime p) \<longrightarrow>
            (\<forall>x\<in>set (outGantt (snd (FCFSSchedule processes))). Start x < Stop x)
          \<and> successively (\<lambda>x y. Stop x = Start y) (outGantt (snd (FCFSSchedule processes))))"
proof -
  have ck: "clock_ok processes" using c by (simp add: clock_ok_def)
  have sjf: "\<forall>out. SJFRun processes = Some out \<longrightarrow>
            sorted_wrt (<) (map Start (outGantt out))
          \<and> distinct_adj (map PID (outGantt out))
          \<and> (\<forall>x\<in>set (outGantt out). Stop x = 0 \<or> Start x < Stop x)
          \<and> successively (\<lambda>x y. Stop x = 0 \<or> Stop x \<le> Start y) (outGantt out)"
  proof (intro allI impI)
    fix out assume "SJFRun processes = Some out"
    from sjf_run_timeline[OF ck srt this] obtain t where "slices_ok t (outGantt out)" ..
    then show "sorted_wrt (<) (map Start (outGantt out))
          \<and> distinct_adj (map PID (outGantt out))
          \<and> (\<forall>x\<in>set (outGantt out). Stop x = 0 \<or> Start x < Stop x)
          \<and> successively (\<lambda>x y. Stop x = 0 \<or> Stop x \<le> Start y) (outGantt out)"
      by (auto simp: slices_ok_def)
  qed
  have prio: "\<forall>out. PriorityRun processes = Some (Inr out) \<longrightarrow>
            sorted_wrt (<) (map Start (outGantt out))
          \<and> distinct_adj (map PID (outGantt out))
          \<and> (\<forall>x\<in>set (outGantt out). Start x < Stop x)"
  proof (intro allI impI)
    fix out assume "PriorityRun processes = Some (Inr out)"
    from priority_run_timeline[OF ck this] obtain t where "starts_ok t (outGantt out)" ..
    then show "sorted_wrt (<) (map Start (outGantt out))
          \<and> distinct_adj (map PID (outGantt out))
          \<and> (\<forall>x\<in>set (outGantt out). Start x < Stop x)"
      by (auto simp: starts_ok_def)
  qed
  have fcfs: "(\<forall>p\<in>set (tl processes). 0 < ArrivalTime p) \<longrightarrow>
            (\<forall>x\<in>set (outGantt (snd (FCFSSchedule processes))). Start x < Stop x)
          \<and> successively (\<lambda>x y. Stop x = Start y) (outGantt (snd (FCFSSchedule processes)))"
  proof
    assume "\<forall>p\<in>set (tl processes). 0 < ArrivalTime p"
    from fcfs_timeline[OF ck this]
    show "(\<forall>x\<in>set (outGantt (snd (FCFSSchedule processes))). Start x < Stop x)
          \<and> successively (\<lambda>x y. Stop x = Start y) (outGantt (snd (FCFSSchedule processes)))"
      by (simp add: fcfs_ok_def FCFSSchedule_def fcfs_output_def)
  qed
  from sjf prio fcfs show ?thesis by blast
qed

theorem C7_timeline_witness:
  "sorted (map ArrivalTime [\<lparr> ProcessID = 1, ArrivalTime = 1, BurstDuration = 5, Priority = 2 \<rparr>,
       \<lparr> ProcessID = 2, ArrivalTime = 2, BurstDuration = 2, Priority = 1 \<rparr>])
   \<and> map_option outGantt (SJFRun [\<lparr> ProcessID = 1, ArrivalTime = 1, BurstDuration = 5, Priority = 2 \<rparr>,
       \<lparr> ProcessID = 2, ArrivalTime = 2, BurstDuration = 2, Priority = 1 \<rparr>])
       = Some [\<lparr> PID = 1, Start = 1, Stop = 0 \<rparr>, \<lparr> PID = 2, Start = 2, Stop = 4 \<rparr>,
               \<lparr> PID = 1, Start = 4, Stop = 8 \<rparr>]
   \<and> sorted_wrt (<) (map Start (outGantt (the (SJFRun [\<lparr> ProcessID = 1, ArrivalTime = 1, BurstDuration = 5, Priority = 2 \<rparr>,
       \<lparr> ProcessID = 2, ArrivalTime = 2, BurstDuration = 2, Priority = 1 \<rparr>]))))
   \<and> distinct_adj (map PID (outGantt (the (SJFRun [\<lparr> ProcessID = 1, ArrivalTime = 1, BurstDuration = 5, Priority = 2 \<rparr>,
       \<lparr> ProcessID = 2, ArrivalTime = 2, BurstDuration = 2, Priority = 1 \<rparr>]))))
   \<and> map_option (map_sum id outGantt) (PriorityRun [\<lparr> ProcessID = 1, ArrivalTime = 1, BurstDuration = 5, Priority = 2 \<rparr>,
       \<lparr> ProcessID = 2, ArrivalTime = 2, BurstDuration = 2, Priority = 1 \<rparr>])
       = Some (Inr [\<lparr> PID = 1, Start = 1, Stop = 6 \<rparr>, \<lparr> PID = 2, Start = 2, Stop = 4 \<rparr>,
                    \<lparr> PID = 1, Start = 4, Stop = 8 \<rparr>])
   \<and> outGantt (snd (FCFSSchedule [\<lparr> ProcessID = 1, ArrivalTime = 1, BurstDuration = 5, Priority = 2 \<rparr>,
       \<lparr> ProcessID = 2, ArrivalTime = 2, BurstDuration = 2, Priority = 1 \<rparr>]))
       = [\<lparr> PID = 1, Start = 0, Stop = 5 \<rparr>, \<lparr> PID = 2, Start = 5, Stop = 7 \<rparr>]
   \<and> successively (\<lambda>x y. Stop x = Start y) (outGantt (snd (FCFSSchedule [\<lparr> ProcessID = 1, ArrivalTime = 1, BurstDuration = 5, Priority = 2 \<rparr>,
       \<lparr> ProcessID = 2, ArrivalTime = 2, BurstDuration = 2, Priority = 1 \<rparr>])))"
proof -
  let ?b = "[\<lparr> ProcessID = 1, ArrivalTime = 1, BurstDuration = 5, Priority = 2 \<rparr>,
       \<lparr> ProcessID = 2, ArrivalTime = 2, BurstDuration = 2, Priority = 1 \<rparr>]"
  have h: "\<forall>p\<in>set ?b. 0 \<le> ArrivalTime p \<and> 0 < BurstDuration p
              \<and> ArrivalTime p + sum_list (map BurstDuration ?b) < MaxInt64"
    by (simp add: MaxInt64_def)
  have srt: "sorted (map ArrivalTime ?b)" by simp
  have late: "\<forall>p\<in>set (tl ?b). 0 < ArrivalTime p" by simp
  have sjf: "map_option outGantt (SJFRun ?b)
       = Some [\<lparr> PID = 1, Start = 1, Stop = 0 \<rparr>, \<lparr> PID = 2, Start = 2, Stop = 4 \<rparr>,
               \<lparr> PID = 1, Start = 4, Stop = 8 \<rparr>]"
    by code_simp
  then obtain out where out: "SJFRun ?b = Some out" by blast
  have prio: "map_option (map_sum id outGantt) (PriorityRun ?b)
       = Some (Inr [\<lparr> PID = 1, Start = 1, Stop = 6 \<rparr>, \<lparr> PID = 2, Start = 2, Stop = 4 \<rparr>,
                    \<lparr> PID = 1, Start = 4, Stop = 8 \<rparr>])"
    by code_simp
  have fcfs: "outGantt (snd (FCFSSchedule ?b))
       = [\<lparr> PID = 1, Start = 0, Stop = 5 \<rparr>, \<lparr> PID = 2, Start = 5, Stop = 7 \<rparr>]"
    by code_simp
  note inst = C7_timeline[OF h srt]
  from inst out have "sorted_wrt (<) (map Start (outGantt out))"
    "distinct_adj (map PID (outGantt out))" by blast+
  moreover from inst late
  have "successively (\<lambda>x y. Stop x = Start y) (outGantt (snd (FCFSSchedule ?b)))" by blast
  ultimately show ?thesis using srt sjf prio fcfs out by simp
qed

text \<open>
  Start <= Stop for every slice, and slices that do not overlap, do not hold in general
  under any of the three policies. In SJF a slice that is preempted keeps Stop = 0
  (here the first slice, which starts at 1); in Priority the slice of a preempted process
  keeps the Stop computed when it was opened (here 0 to 5, while the next slice runs from 1
  to 3); in FCFS a second process arriving at 0 gets a slice that starts at 0 again.
\<close>

theorem C7_counterexample:
  "map_option outGantt (SJFRun
      [\<lparr> ProcessID = 1, ArrivalTime = 1, BurstDuration = 5, Priority = 0 \<rparr>,
       \<lparr> ProcessID = 2, ArrivalTime = 2, BurstDuration = 2, Priority = 0 \<rparr>])
     = Some [\<lparr> PID = 1, Start = 1, Stop = 0 \<rparr>, \<lparr> PID = 2, Start = 2, Stop = 4 \<rparr>,
             \<lparr> PID = 1, Start = 4, Stop = 8 \<rparr>]
   \<and> map_option (map_sum id outGantt) (PriorityRun
      [\<lparr> ProcessID = 1, ArrivalTime = 0, BurstDuration = 5, Priority = 2 \<rparr>,
       \<lparr> ProcessID = 2, ArrivalTime = 1, BurstDuration = 2, Priority = 1 \<rparr>])
     = Some (Inr [\<lparr> PID = 1, Start = 0, Stop = 5 \<rparr>, \<lparr> PID = 2, Start = 1, Stop = 3 \<rparr>,
                  \<lparr> PID = 1, Start = 3, Stop = 7 \<rparr>])
   \<and> outGantt (snd (FCFSSchedule
      [\<lparr> ProcessID = 1, ArrivalTime = 0, BurstDuration = 5, Priority = 0 \<rparr>,
       \<lparr> ProcessID = 2, ArrivalTime = 0, BurstDuration = 2, Priority = 0 \<rparr>]))
     = [\<lparr> PID = 1, Start = 0, Stop = 5 \<rparr>, \<lparr> PID = 2, Start = 0, Stop = 7 \<rparr>]"
  by code_simp

end
